theory Spec2Isabelle
  imports Main "HOL-Library.Word" "HOL-Library.Sublist"
begin

unbundle bit_operations_syntax

section \<open>Values of the program\<close>

text \<open>
  The program is a Python script (\<^verbatim>\<open>app.py\<close>). Its evidence ledger works on three
  kinds of values: \<^verbatim>\<open>bytes\<close> (uploaded files), \<^verbatim>\<open>str\<close> (sequences of Unicode code
  points) and the values \<^verbatim>\<open>json.loads\<close> builds. A \<^verbatim>\<open>str\<close> is a list of code points
  here, since the ledger text may hold any character; \<open>str_of\<close> turns an ASCII literal
  of the source into such a list.
\<close>

type_synonym byte = "8 word"
type_synonym bytes = "byte list"
type_synonym pystr = "nat list"

definition str_of :: "string \<Rightarrow> pystr" where
  "str_of cs = map of_char cs"

section \<open>hashlib: SHA-256 and SHA-512\<close>

text \<open>
  \<^verbatim>\<open>hashlib.sha256(data).hexdigest()\<close> and its SHA-512 sibling are library calls. They
  are modelled from FIPS 180-4, which the library implements: padding, the message
  schedule, the compression function over eight working variables, and the digest as
  the big-endian bytes of the final hash value. \<^verbatim>\<open>hexdigest\<close> writes each byte of the
  digest as two lowercase hexadecimal digits.
\<close>

definition be_bytes :: "nat \<Rightarrow> 'a::len word \<Rightarrow> bytes" where
  "be_bytes n w = map (\<lambda>i. ucast (drop_bit (8 * (n - 1 - i)) w)) [0..<n]"

definition be_word :: "bytes \<Rightarrow> 'a::len word" where
  "be_word bs = foldl (\<lambda>acc b. push_bit 8 acc OR ucast b) 0 bs"

definition rotr :: "nat \<Rightarrow> 'a::len word \<Rightarrow> 'a word" where
  "rotr n w = drop_bit n w OR push_bit (LENGTH('a) - n) w"

fun chunks :: "nat \<Rightarrow> 'a list \<Rightarrow> 'a list list" where
  "chunks n xs = (if n = 0 \<or> xs = [] then [] else take n xs # chunks n (drop n xs))"

declare chunks.simps [simp del]

definition hex_digit :: "nat \<Rightarrow> nat" where
  "hex_digit n = (if n < 10 then 48 + n else 87 + n)"

definition hex_byte :: "byte \<Rightarrow> pystr" where
  "hex_byte b = [hex_digit (unat b div 16), hex_digit (unat b mod 16)]"

definition hexdigest :: "bytes \<Rightarrow> pystr" where
  "hexdigest d = concat (map hex_byte d)"

subsection \<open>SHA-256\<close>

definition K256 :: "32 word list" where
  "K256 = [
    0x428A2F98, 0x71374491, 0xB5C0FBCF, 0xE9B5DBA5, 0x3956C25B, 0x59F111F1, 0x923F82A4, 0xAB1C5ED5,
    0xD807AA98, 0x12835B01, 0x243185BE, 0x550C7DC3, 0x72BE5D74, 0x80DEB1FE, 0x9BDC06A7, 0xC19BF174,
    0xE49B69C1, 0xEFBE4786, 0x0FC19DC6, 0x240CA1CC, 0x2DE92C6F, 0x4A7484AA, 0x5CB0A9DC, 0x76F988DA,
    0x983E5152, 0xA831C66D, 0xB00327C8, 0xBF597FC7, 0xC6E00BF3, 0xD5A79147, 0x06CA6351, 0x14292967,
    0x27B70A85, 0x2E1B2138, 0x4D2C6DFC, 0x53380D13, 0x650A7354, 0x766A0ABB, 0x81C2C92E, 0x92722C85,
    0xA2BFE8A1, 0xA81A664B, 0xC24B8B70, 0xC76C51A3, 0xD192E819, 0xD6990624, 0xF40E3585, 0x106AA070,
    0x19A4C116, 0x1E376C08, 0x2748774C, 0x34B0BCB5, 0x391C0CB3, 0x4ED8AA4A, 0x5B9CCA4F, 0x682E6FF3,
    0x748F82EE, 0x78A5636F, 0x84C87814, 0x8CC70208, 0x90BEFFFA, 0xA4506CEB, 0xBEF9A3F7, 0xC67178F2]"

definition H256 :: "32 word list" where
  "H256 = [0x6A09E667, 0xBB67AE85, 0x3C6EF372, 0xA54FF53A, 0x510E527F, 0x9B05688C, 0x1F83D9AB, 0x5BE0CD19]"

definition pad256 :: "bytes \<Rightarrow> bytes" where
  "pad256 m = m @ [0x80] @ replicate ((119 - length m mod 64) mod 64) 0
     @ be_bytes 8 (of_nat (8 * length m) :: 64 word)"

definition Ch :: "'a::len word \<Rightarrow> 'a word \<Rightarrow> 'a word \<Rightarrow> 'a word" where
  "Ch x y z = (x AND y) XOR (NOT x AND z)"

definition Maj :: "'a::len word \<Rightarrow> 'a word \<Rightarrow> 'a word \<Rightarrow> 'a word" where
  "Maj x y z = (x AND y) XOR (x AND z) XOR (y AND z)"

definition bsig0_256 :: "32 word \<Rightarrow> 32 word" where
  "bsig0_256 x = rotr 2 x XOR rotr 13 x XOR rotr 22 x"

definition bsig1_256 :: "32 word \<Rightarrow> 32 word" where
  "bsig1_256 x = rotr 6 x XOR rotr 11 x XOR rotr 25 x"

definition ssig0_256 :: "32 word \<Rightarrow> 32 word" where
  "ssig0_256 x = rotr 7 x XOR rotr 18 x XOR drop_bit 3 x"

definition ssig1_256 :: "32 word \<Rightarrow> 32 word" where
  "ssig1_256 x = rotr 17 x XOR rotr 19 x XOR drop_bit 10 x"

definition schedule256 :: "bytes \<Rightarrow> 32 word list" where
  "schedule256 blk =
     foldl (\<lambda>w t. w @ [ssig1_256 (w ! (t - 2)) + w ! (t - 7) + ssig0_256 (w ! (t - 15)) + w ! (t - 16)])
       (map be_word (chunks 4 blk)) [16..<64]"

fun round256 :: "32 word list \<Rightarrow> 32 word list \<Rightarrow> nat \<Rightarrow> 32 word list" where
  "round256 w [a, b, c, d, e, f, g, h] t =
     (let t1 = h + bsig1_256 e + Ch e f g + K256 ! t + w ! t;
          t2 = bsig0_256 a + Maj a b c
      in [t1 + t2, a, b, c, d + t1, e, f, g])"
| "round256 w v t = v"

definition compress256 :: "32 word list \<Rightarrow> bytes \<Rightarrow> 32 word list" where
  "compress256 hs blk = map2 (+) hs (foldl (round256 (schedule256 blk)) hs [0..<64])"

definition sha256_digest :: "bytes \<Rightarrow> bytes" where
  "sha256_digest m = concat (map (be_bytes 4) (foldl compress256 H256 (chunks 64 (pad256 m))))"

subsection \<open>SHA-512\<close>

definition K512 :: "64 word list" where
  "K512 = [
    0x428A2F98D728AE22, 0x7137449123EF65CD, 0xB5C0FBCFEC4D3B2F, 0xE9B5DBA58189DBBC,
    0x3956C25BF348B538, 0x59F111F1B605D019, 0x923F82A4AF194F9B, 0xAB1C5ED5DA6D8118,
    0xD807AA98A3030242, 0x12835B0145706FBE, 0x243185BE4EE4B28C, 0x550C7DC3D5FFB4E2,
    0x72BE5D74F27B896F, 0x80DEB1FE3B1696B1, 0x9BDC06A725C71235, 0xC19BF174CF692694,
    0xE49B69C19EF14AD2, 0xEFBE4786384F25E3, 0x0FC19DC68B8CD5B5, 0x240CA1CC77AC9C65,
    0x2DE92C6F592B0275, 0x4A7484AA6EA6E483, 0x5CB0A9DCBD41FBD4, 0x76F988DA831153B5,
    0x983E5152EE66DFAB, 0xA831C66D2DB43210, 0xB00327C898FB213F, 0xBF597FC7BEEF0EE4,
    0xC6E00BF33DA88FC2, 0xD5A79147930AA725, 0x06CA6351E003826F, 0x142929670A0E6E70,
    0x27B70A8546D22FFC, 0x2E1B21385C26C926, 0x4D2C6DFC5AC42AED, 0x53380D139D95B3DF,
    0x650A73548BAF63DE, 0x766A0ABB3C77B2A8, 0x81C2C92E47EDAEE6, 0x92722C851482353B,
    0xA2BFE8A14CF10364, 0xA81A664BBC423001, 0xC24B8B70D0F89791, 0xC76C51A30654BE30,
    0xD192E819D6EF5218, 0xD69906245565A910, 0xF40E35855771202A, 0x106AA07032BBD1B8,
    0x19A4C116B8D2D0C8, 0x1E376C085141AB53, 0x2748774CDF8EEB99, 0x34B0BCB5E19B48A8,
    0x391C0CB3C5C95A63, 0x4ED8AA4AE3418ACB, 0x5B9CCA4F7763E373, 0x682E6FF3D6B2B8A3,
    0x748F82EE5DEFB2FC, 0x78A5636F43172F60, 0x84C87814A1F0AB72, 0x8CC702081A6439EC,
    0x90BEFFFA23631E28, 0xA4506CEBDE82BDE9, 0xBEF9A3F7B2C67915, 0xC67178F2E372532B,
    0xCA273ECEEA26619C, 0xD186B8C721C0C207, 0xEADA7DD6CDE0EB1E, 0xF57D4F7FEE6ED178,
    0x06F067AA72176FBA, 0x0A637DC5A2C898A6, 0x113F9804BEF90DAE, 0x1B710B35131C471B,
    0x28DB77F523047D84, 0x32CAAB7B40C72493, 0x3C9EBE0A15C9BEBC, 0x431D67C49C100D4C,
    0x4CC5D4BECB3E42B6, 0x597F299CFC657E2A, 0x5FCB6FAB3AD6FAEC, 0x6C44198C4A475817]"

definition H512 :: "64 word list" where
  "H512 = [0x6A09E667F3BCC908, 0xBB67AE8584CAA73B, 0x3C6EF372FE94F82B, 0xA54FF53A5F1D36F1, 0x510E527FADE682D1, 0x9B05688C2B3E6C1F, 0x1F83D9ABFB41BD6B, 0x5BE0CD19137E2179]"

definition pad512 :: "bytes \<Rightarrow> bytes" where
  "pad512 m = m @ [0x80] @ replicate ((239 - length m mod 128) mod 128) 0
     @ be_bytes 16 (of_nat (8 * length m) :: 128 word)"

definition bsig0_512 :: "64 word \<Rightarrow> 64 word" where
  "bsig0_512 x = rotr 28 x XOR rotr 34 x XOR rotr 39 x"

definition bsig1_512 :: "64 word \<Rightarrow> 64 word" where
  "bsig1_512 x = rotr 14 x XOR rotr 18 x XOR rotr 41 x"

definition ssig0_512 :: "64 word \<Rightarrow> 64 word" where
  "ssig0_512 x = rotr 1 x XOR rotr 8 x XOR drop_bit 7 x"

definition ssig1_512 :: "64 word \<Rightarrow> 64 word" where
  "ssig1_512 x = rotr 19 x XOR rotr 61 x XOR drop_bit 6 x"

definition schedule512 :: "bytes \<Rightarrow> 64 word list" where
  "schedule512 blk =
     foldl (\<lambda>w t. w @ [ssig1_512 (w ! (t - 2)) + w ! (t - 7) + ssig0_512 (w ! (t - 15)) + w ! (t - 16)])
       (map be_word (chunks 8 blk)) [16..<80]"

fun round512 :: "64 word list \<Rightarrow> 64 word list \<Rightarrow> nat \<Rightarrow> 64 word list" where
  "round512 w [a, b, c, d, e, f, g, h] t =
     (let t1 = h + bsig1_512 e + Ch e f g + K512 ! t + w ! t;
          t2 = bsig0_512 a + Maj a b c
      in [t1 + t2, a, b, c, d + t1, e, f, g])"
| "round512 w v t = v"

definition compress512 :: "64 word list \<Rightarrow> bytes \<Rightarrow> 64 word list" where
  "compress512 hs blk = map2 (+) hs (foldl (round512 (schedule512 blk)) hs [0..<80])"

definition sha512_digest :: "bytes \<Rightarrow> bytes" where
  "sha512_digest m = concat (map (be_bytes 8) (foldl compress512 H512 (chunks 128 (pad512 m))))"

subsection \<open>The program's digest functions\<close>

text \<open>
  \<^verbatim>\<open>def sha256_hex(data: bytes) -> str: return hashlib.sha256(data).hexdigest()\<close>
  and the same for SHA-512 (lines 74 to 79).
\<close>

definition sha256_hex :: "bytes \<Rightarrow> pystr" where
  "sha256_hex data = hexdigest (sha256_digest data)"

definition sha512_hex :: "bytes \<Rightarrow> pystr" where
  "sha512_hex data = hexdigest (sha512_digest data)"

section \<open>Text: UTF-8, lines and whitespace\<close>

text \<open>
  Exceptions of the Python run time that the modelled code can raise. A function that can
  raise returns a sum, \<open>Inl\<close> carrying the exception. \<^verbatim>\<open>json.JSONDecodeError\<close> is a
  subclass of \<^verbatim>\<open>ValueError\<close>; the constructor \<open>ValueError\<close> stands for a
  \<^verbatim>\<open>ValueError\<close> that is no \<^verbatim>\<open>JSONDecodeError\<close>, which a clause
  \<^verbatim>\<open>except json.JSONDecodeError\<close> does not catch.
\<close>

datatype exn =
  JSONDecodeError | AttributeError | UnicodeEncodeError | RecursionError | ValueError

text \<open>
  \<^verbatim>\<open>content.decode("utf-8", errors="ignore")\<close>: a well-formed UTF-8 sequence (shortest
  form, no surrogate, at most U+10FFFF) gives its code point; any other byte is skipped
  and decoding goes on at the next byte.
\<close>

definition cont :: "byte \<Rightarrow> bool" where
  "cont b = (0x80 \<le> b \<and> b \<le> 0xBF)"

definition utf8_seq :: "byte \<Rightarrow> bytes \<Rightarrow> (nat \<times> nat) option" where
  "utf8_seq b0 bs =
     (if 0xC2 \<le> b0 \<and> b0 \<le> 0xDF then
        (case bs of
           b1 # _ \<Rightarrow>
             if cont b1 then Some ((unat b0 - 0xC0) * 64 + (unat b1 - 0x80), 1) else None
         | _ \<Rightarrow> None)
      else if 0xE0 \<le> b0 \<and> b0 \<le> 0xEF then
        (case bs of
           b1 # b2 # _ \<Rightarrow>
             if (if b0 = 0xE0 then 0xA0 else 0x80) \<le> b1
                \<and> b1 \<le> (if b0 = 0xED then 0x9F else 0xBF) \<and> cont b2
             then Some (((unat b0 - 0xE0) * 64 + (unat b1 - 0x80)) * 64 + (unat b2 - 0x80), 2)
             else None
         | _ \<Rightarrow> None)
      else if 0xF0 \<le> b0 \<and> b0 \<le> 0xF4 then
        (case bs of
           b1 # b2 # b3 # _ \<Rightarrow>
             if (if b0 = 0xF0 then 0x90 else 0x80) \<le> b1
                \<and> b1 \<le> (if b0 = 0xF4 then 0x8F else 0xBF) \<and> cont b2 \<and> cont b3
             then Some ((((unat b0 - 0xF0) * 64 + (unat b1 - 0x80)) * 64
                          + (unat b2 - 0x80)) * 64 + (unat b3 - 0x80), 3)
             else None
         | _ \<Rightarrow> None)
      else None)"

fun decode_utf8_ignore :: "bytes \<Rightarrow> pystr" where
  "decode_utf8_ignore [] = []"
| "decode_utf8_ignore (b0 # bs) =
     (if b0 < 0x80 then unat b0 # decode_utf8_ignore bs
      else case utf8_seq b0 bs of
             Some (cp, n) \<Rightarrow> cp # decode_utf8_ignore (drop n bs)
           | None \<Rightarrow> decode_utf8_ignore bs)"

text \<open>
  \<^verbatim>\<open>text.encode("utf-8")\<close>, as the export button applies it to the ledger text: strict,
  so a surrogate code point raises.
\<close>

definition encode_char :: "nat \<Rightarrow> exn + bytes" where
  "encode_char c =
     (if c < 0x80 then Inr [of_nat c]
      else if c < 0x800 then Inr [of_nat (0xC0 + c div 64), of_nat (0x80 + c mod 64)]
      else if 0xD800 \<le> c \<and> c \<le> 0xDFFF then Inl UnicodeEncodeError
      else if c < 0x10000 then
        Inr [of_nat (0xE0 + c div 4096), of_nat (0x80 + c div 64 mod 64), of_nat (0x80 + c mod 64)]
      else if c < 0x110000 then
        Inr [of_nat (0xF0 + c div 262144), of_nat (0x80 + c div 4096 mod 64),
             of_nat (0x80 + c div 64 mod 64), of_nat (0x80 + c mod 64)]
      else Inl UnicodeEncodeError)"

fun encode_utf8 :: "pystr \<Rightarrow> exn + bytes" where
  "encode_utf8 [] = Inr []"
| "encode_utf8 (c # cs) =
     (case encode_char c of
        Inl e \<Rightarrow> Inl e
      | Inr bs \<Rightarrow> (case encode_utf8 cs of Inl e \<Rightarrow> Inl e | Inr rest \<Rightarrow> Inr (bs @ rest)))"

text \<open>
  \<^verbatim>\<open>str.splitlines()\<close> ends a line at each of the characters below (and takes CR LF as
  one boundary); a text that ends with a boundary has no empty last line.
  \<^verbatim>\<open>str.strip()\<close> removes the characters for which \<^verbatim>\<open>str.isspace\<close> holds from both
  ends.
\<close>

definition is_linebreak :: "nat \<Rightarrow> bool" where
  "is_linebreak c = (c \<in> {0x0A, 0x0B, 0x0C, 0x0D, 0x1C, 0x1D, 0x1E, 0x85, 0x2028, 0x2029})"

fun splitlines_from :: "pystr \<Rightarrow> pystr \<Rightarrow> pystr list" where
  "splitlines_from cur [] = (if cur = [] then [] else [cur])"
| "splitlines_from cur (c # cs) =
     (if c = 0x0D then
        (case cs of
           d # ds \<Rightarrow> if d = 0x0A then cur # splitlines_from [] ds else cur # splitlines_from [] cs
         | [] \<Rightarrow> cur # splitlines_from [] cs)
      else if is_linebreak c then cur # splitlines_from [] cs
      else splitlines_from (cur @ [c]) cs)"

definition splitlines :: "pystr \<Rightarrow> pystr list" where
  "splitlines s = splitlines_from [] s"

definition isspace :: "nat \<Rightarrow> bool" where
  "isspace c = ((0x09 \<le> c \<and> c \<le> 0x0D) \<or> (0x1C \<le> c \<and> c \<le> 0x20) \<or> c = 0x85 \<or> c = 0xA0
     \<or> c = 0x1680 \<or> (0x2000 \<le> c \<and> c \<le> 0x200A) \<or> c = 0x2028 \<or> c = 0x2029
     \<or> c = 0x202F \<or> c = 0x205F \<or> c = 0x3000)"

definition strip :: "pystr \<Rightarrow> pystr" where
  "strip s = rev (dropWhile isspace (rev (dropWhile isspace s)))"

section \<open>Python values and the json module\<close>

text \<open>
  The values \<^verbatim>\<open>json.loads\<close> returns and \<^verbatim>\<open>json.dumps\<close> accepts. A \<^verbatim>\<open>dict\<close> is an
  association list in insertion order with \<open>dict_set\<close> as its item assignment, so a
  repeated key keeps its first position and its last value. A \<^verbatim>\<open>float\<close> is kept as
  the text that denotes it: the program never computes with a number it has parsed,
  and floating-point arithmetic is outside this development.
\<close>

datatype pyval =
    PNone
  | PBool bool
  | PInt int
  | PFloat pystr
  | PStr pystr
  | PList "pyval list"
  | PDict "(pystr \<times> pyval) list"

fun dict_set :: "(pystr \<times> pyval) list \<Rightarrow> pystr \<Rightarrow> pyval \<Rightarrow> (pystr \<times> pyval) list" where
  "dict_set [] k v = [(k, v)]"
| "dict_set ((k', v') # kvs) k v =
     (if k' = k then (k, v) # kvs else (k', v') # dict_set kvs k v)"

subsection \<open>json.dumps(e, ensure\_ascii=False)\<close>

text \<open>
  With \<^verbatim>\<open>ensure_ascii=False\<close> a string is written between double quotes with only the
  quote, the backslash and the characters below U+0020 escaped; every other character,
  ASCII or not, is copied as it is. Items are separated by \<^verbatim>\<open>", "\<close> and a key
  from its value by \<^verbatim>\<open>": "\<close> (the default separators), on one line. The program
  writes only the records it has built, dicts of strings and of one number, the length
  of a byte string: values far from the limits of the interpreter that reading meets
  (below), so that writing has no raising branch.
\<close>

definition escape_char :: "nat \<Rightarrow> pystr" where
  "escape_char c =
     (if c = 0x22 then [0x5C, 0x22]
      else if c = 0x5C then [0x5C, 0x5C]
      else if c = 0x0A then [0x5C, 0x6E]
      else if c = 0x0D then [0x5C, 0x72]
      else if c = 0x09 then [0x5C, 0x74]
      else if c = 0x08 then [0x5C, 0x62]
      else if c = 0x0C then [0x5C, 0x66]
      else if c < 0x20 then [0x5C, 0x75, 0x30, 0x30, hex_digit (c div 16), hex_digit (c mod 16)]
      else [c])"

definition encode_basestring :: "pystr \<Rightarrow> pystr" where
  "encode_basestring s = [0x22] @ concat (map escape_char s) @ [0x22]"

fun dec_digits :: "nat \<Rightarrow> pystr" where
  "dec_digits n = (if n < 10 then [48 + n] else dec_digits (n div 10) @ [48 + n mod 10])"

declare dec_digits.simps [simp del]

definition str_int :: "int \<Rightarrow> pystr" where
  "str_int i = (if i < 0 then 0x2D # dec_digits (nat (- i)) else dec_digits (nat i))"

fun join :: "'a list \<Rightarrow> 'a list list \<Rightarrow> 'a list" where
  "join sep [] = []"
| "join sep [x] = x"
| "join sep (x # y # ys) = x @ sep @ join sep (y # ys)"

fun json_dumps :: "pyval \<Rightarrow> pystr" where
  "json_dumps PNone = str_of ''null''"
| "json_dumps (PBool b) = (if b then str_of ''true'' else str_of ''false'')"
| "json_dumps (PInt i) = str_int i"
| "json_dumps (PFloat r) = r"
| "json_dumps (PStr s) = encode_basestring s"
| "json_dumps (PList xs) = [0x5B] @ join (str_of '', '') (map json_dumps xs) @ [0x5D]"
| "json_dumps (PDict kvs) =
     [0x7B] @ join (str_of '', '')
       (map (\<lambda>kv. encode_basestring (fst kv) @ str_of '': '' @ json_dumps (snd kv)) kvs) @ [0x7D]"

subsection \<open>json.loads\<close>

text \<open>
  The decoder is the scanner of the standard library (\<^verbatim>\<open>scan_once\<close>, \<^verbatim>\<open>scanstring\<close>
  in strict mode, the number matcher, the object and array loops). A scanner function
  returns the value and the input that is left, or the exception it raises. Where the
  library gives up on the text (its \<^verbatim>\<open>StopIteration\<close> included, which \<^verbatim>\<open>raw_decode\<close>
  converts) the caller of \<^verbatim>\<open>json.loads\<close> gets \<^verbatim>\<open>JSONDecodeError\<close>.

  Two limits of the interpreter make it raise on a text that is valid JSON, with
  exceptions of other classes. The scanner enters a recursive call for every object and
  array it opens (\<^verbatim>\<open>Py_EnterRecursiveCall\<close>, before it looks at the first member), and
  raises \<^verbatim>\<open>RecursionError\<close> when the interpreter's recursion limit is reached. And an
  integer literal is converted with \<^verbatim>\<open>int\<close>, which since the releases that have
  \<^verbatim>\<open>sys.set_int_max_str_digits\<close> raises \<^verbatim>\<open>ValueError\<close> when the literal has more than
  640 digits and more digits than that limit (4300 unless changed). Both limits
  are arguments of the model: \<open>max_depth\<close> is the number of containers, one inside the
  other, that the scanner may open when \<^verbatim>\<open>json.loads\<close> is called (what the call stack
  leaves of the recursion limit), and \<open>max_digits\<close> is
  \<^verbatim>\<open>sys.get_int_max_str_digits()\<close>, 0 for no limit (as in a release without it).
\<close>

record limits =
  max_depth :: nat
  max_digits :: nat

text \<open>The limits of an interpreter as it is installed, for use as an instance.\<close>

definition example_limits :: limits where
  "example_limits = \<lparr>max_depth = 900, max_digits = 4300\<rparr>"

definition is_json_ws :: "nat \<Rightarrow> bool" where
  "is_json_ws c = (c = 0x20 \<or> c = 0x09 \<or> c = 0x0A \<or> c = 0x0D)"

definition skip_ws :: "pystr \<Rightarrow> pystr" where
  "skip_ws s = dropWhile is_json_ws s"

definition is_digit :: "nat \<Rightarrow> bool" where
  "is_digit c = (48 \<le> c \<and> c \<le> 57)"

definition hex_val :: "nat \<Rightarrow> nat option" where
  "hex_val c =
     (if 48 \<le> c \<and> c \<le> 57 then Some (c - 48)
      else if 97 \<le> c \<and> c \<le> 102 then Some (c - 87)
      else if 65 \<le> c \<and> c \<le> 70 then Some (c - 55)
      else None)"

fun hex4 :: "pystr \<Rightarrow> nat option" where
  "hex4 (a # b # c # d # _) =
     (case (hex_val a, hex_val b, hex_val c, hex_val d) of
        (Some x, Some y, Some z, Some w) \<Rightarrow> Some (((x * 16 + y) * 16 + z) * 16 + w)
      | _ \<Rightarrow> None)"
| "hex4 _ = None"

definition unescape :: "nat \<Rightarrow> nat option" where
  "unescape e =
     (if e = 0x22 \<or> e = 0x5C \<or> e = 0x2F then Some e
      else if e = 0x62 then Some 0x08
      else if e = 0x66 then Some 0x0C
      else if e = 0x6E then Some 0x0A
      else if e = 0x72 then Some 0x0D
      else if e = 0x74 then Some 0x09
      else None)"

definition is_high_surrogate :: "nat \<Rightarrow> bool" where
  "is_high_surrogate u = (0xD800 \<le> u \<and> u \<le> 0xDBFF)"

definition is_low_surrogate :: "nat \<Rightarrow> bool" where
  "is_low_surrogate u = (0xDC00 \<le> u \<and> u \<le> 0xDFFF)"

definition join_surrogates :: "nat \<Rightarrow> nat \<Rightarrow> nat" where
  "join_surrogates u u2 = 0x10000 + (u - 0xD800) * 1024 + (u2 - 0xDC00)"

function scanstring :: "pystr \<Rightarrow> pystr \<Rightarrow> (pystr \<times> pystr) option" where
  "scanstring [] acc = None"
| "scanstring (c # cs) acc =
     (if c = 0x22 then Some (acc, cs)
      else if c = 0x5C then
        (case cs of
           [] \<Rightarrow> None
         | e # cs' \<Rightarrow>
             if e = 0x75 then
               (case hex4 cs' of
                  None \<Rightarrow> None
                | Some u \<Rightarrow>
                    if is_high_surrogate u \<and> 6 \<le> length (drop 4 cs')
                       \<and> take 2 (drop 4 cs') = [0x5C, 0x75]
                    then
                      (case hex4 (drop 6 cs') of
                         None \<Rightarrow> None
                       | Some u2 \<Rightarrow>
                           if is_low_surrogate u2
                           then scanstring (drop 10 cs') (acc @ [join_surrogates u u2])
                           else scanstring (drop 4 cs') (acc @ [u]))
                    else scanstring (drop 4 cs') (acc @ [u]))
             else
               (case unescape e of
                  None \<Rightarrow> None
                | Some x \<Rightarrow> scanstring cs' (acc @ [x])))
      else if c \<le> 0x1F then None
      else scanstring cs (acc @ [c]))"
  by pat_completeness auto
termination
  by (relation "measure (\<lambda>(s, acc). length s)") auto

definition int_of_digits :: "pystr \<Rightarrow> int" where
  "int_of_digits ds = foldl (\<lambda>acc d. 10 * acc + int (d - 48)) 0 ds"

definition match_exp :: "pystr \<Rightarrow> pystr \<times> pystr" where
  "match_exp s =
     (case s of
        e # r \<Rightarrow>
          if e = 0x65 \<or> e = 0x45 then
            (let sgn = (case r of c # _ \<Rightarrow> if c = 0x2D \<or> c = 0x2B then [c] else [] | [] \<Rightarrow> []);
                 r' = drop (length sgn) r;
                 ds = takeWhile is_digit r'
             in if ds = [] then ([], s) else (e # sgn @ ds, dropWhile is_digit r'))
          else ([], s)
      | [] \<Rightarrow> ([], s))"

definition match_frac :: "pystr \<Rightarrow> pystr \<times> pystr" where
  "match_frac s =
     (case s of
        p # d # r \<Rightarrow>
          if p = 0x2E \<and> is_digit d
          then (p # d # takeWhile is_digit r, dropWhile is_digit r)
          else ([], s)
      | _ \<Rightarrow> ([], s))"

definition match_int :: "pystr \<Rightarrow> (pystr \<times> pystr) option" where
  "match_int s =
     (case s of
        [] \<Rightarrow> None
      | d # ds \<Rightarrow>
          if 0x31 \<le> d \<and> d \<le> 0x39 then Some (d # takeWhile is_digit ds, dropWhile is_digit ds)
          else if d = 0x30 then Some ([d], ds)
          else None)"

text \<open>
  The number matcher finds the extent of the literal and converts it: with a fraction or
  an exponent to a \<^verbatim>\<open>float\<close> (kept as its text), otherwise with \<^verbatim>\<open>int\<close>, which counts
  the digits (not the sign) against the limit \<open>md\<close>.
\<close>

definition match_number :: "nat \<Rightarrow> pystr \<Rightarrow> exn + (pyval \<times> pystr)" where
  "match_number md s =
     (let sgn = (if take 1 s = [0x2D] then [0x2D] else [])
      in case match_int (drop (length sgn) s) of
           None \<Rightarrow> Inl JSONDecodeError
         | Some (ip, r0) \<Rightarrow>
             (let (fp, r1) = match_frac r0;
                  (ep, r2) = match_exp r1
              in if fp = [] \<and> ep = []
                 then
                   (if 640 < length ip \<and> 0 < md \<and> md < length ip then Inl ValueError
                    else Inr (PInt (if sgn = [] then int_of_digits ip else - int_of_digits ip), r2))
                 else Inr (PFloat (sgn @ ip @ fp @ ep), r2)))"

definition match_constant :: "pystr \<Rightarrow> (pyval \<times> pystr) option" where
  "match_constant s =
     (if take 4 s = str_of ''null'' then Some (PNone, drop 4 s)
      else if take 4 s = str_of ''true'' then Some (PBool True, drop 4 s)
      else if take 5 s = str_of ''false'' then Some (PBool False, drop 5 s)
      else if take 3 s = str_of ''NaN'' then Some (PFloat (str_of ''NaN''), drop 3 s)
      else if take 8 s = str_of ''Infinity'' then Some (PFloat (str_of ''Infinity''), drop 8 s)
      else if take 9 s = str_of ''-Infinity'' then Some (PFloat (str_of ''-Infinity''), drop 9 s)
      else None)"

text \<open>
  \<open>scan_once md d s\<close> scans one value at the start of \<open>s\<close>, with \<open>d\<close> containers left
  to open. The object and array loops call \<open>scan_once\<close> for each member, with one
  container less, and go on in the input it leaves. The comparison of lengths after each
  call is what makes this recursion well-founded; it never fails (\<open>scan_loops_shorter\<close>
  below), so the branch it guards is dead and the loops satisfy the equations without
  it (\<open>array_loop_eq\<close>, \<open>object_loop_eq\<close>).
\<close>

function scan_once :: "nat \<Rightarrow> nat \<Rightarrow> pystr \<Rightarrow> exn + (pyval \<times> pystr)"
  and array_loop :: "nat \<Rightarrow> nat \<Rightarrow> pystr \<Rightarrow> pyval list \<Rightarrow> exn + (pyval \<times> pystr)"
  and object_loop :: "nat \<Rightarrow> nat \<Rightarrow> pystr \<Rightarrow> (pystr \<times> pyval) list \<Rightarrow> exn + (pyval \<times> pystr)"
where
  "scan_once md d s =
     (case s of
        [] \<Rightarrow> Inl JSONDecodeError
      | c # cs \<Rightarrow>
          if c = 0x22 then
            (case scanstring cs [] of
               None \<Rightarrow> Inl JSONDecodeError
             | Some (str, r) \<Rightarrow> Inr (PStr str, r))
          else if c = 0x7B then
            (if d = 0 then Inl RecursionError
             else if take 1 (skip_ws cs) = [0x7D] then Inr (PDict [], drop 1 (skip_ws cs))
             else object_loop md (d - 1) (skip_ws cs) [])
          else if c = 0x5B then
            (if d = 0 then Inl RecursionError
             else if take 1 (skip_ws cs) = [0x5D] then Inr (PList [], drop 1 (skip_ws cs))
             else array_loop md (d - 1) (skip_ws cs) [])
          else
            (case match_constant s of Some x \<Rightarrow> Inr x | None \<Rightarrow> match_number md s))"
| "array_loop md d s acc =
     (case scan_once md d s of
        Inl e \<Rightarrow> Inl e
      | Inr (v, rest) \<Rightarrow>
          if length s < length rest then Inl JSONDecodeError
          else
            (case skip_ws rest of
               [] \<Rightarrow> Inl JSONDecodeError
             | c # r \<Rightarrow>
                 if c = 0x5D then Inr (PList (acc @ [v]), r)
                 else if c = 0x2C then array_loop md d (skip_ws r) (acc @ [v])
                 else Inl JSONDecodeError))"
| "object_loop md d s acc =
     (case s of
        [] \<Rightarrow> Inl JSONDecodeError
      | q # s1 \<Rightarrow>
          if q \<noteq> 0x22 then Inl JSONDecodeError
          else
            (case scanstring s1 [] of
               None \<Rightarrow> Inl JSONDecodeError
             | Some (key, r1) \<Rightarrow>
                 (case skip_ws r1 of
                    [] \<Rightarrow> Inl JSONDecodeError
                  | col # r2 \<Rightarrow>
                      if col \<noteq> 0x3A then Inl JSONDecodeError
                      else
                        (case scan_once md d (skip_ws r2) of
                           Inl e \<Rightarrow> Inl e
                         | Inr (v, r3) \<Rightarrow>
                             if length (skip_ws r2) < length r3 then Inl JSONDecodeError
                             else
                               (case skip_ws r3 of
                                  [] \<Rightarrow> Inl JSONDecodeError
                                | c # r4 \<Rightarrow>
                                    if c = 0x7D then Inr (PDict (dict_set acc key v), r4)
                                    else if c = 0x2C
                                      then object_loop md d (skip_ws r4) (dict_set acc key v)
                                    else Inl JSONDecodeError)))))"
  by pat_completeness auto
termination
proof -
  have ws: "length (skip_ws s) \<le> length s" for s
    unfolding skip_ws_def by (rule length_dropWhile_le)
  have wsc: "length r < length s" if "skip_ws s = d # r" for s d r
    using that ws [of s] by simp
  have str: "length r < length s" if "scanstring s acc = Some (k, r)" for s acc k r
    using that
  proof (induction s acc rule: scanstring.induct)
    case (1 acc)
    then show ?case by simp
  next
    case (2 c cs acc)
    then show ?case
      by (auto split: if_splits list.splits option.splits simp del: hex4.simps; force)
  qed
  show ?thesis
  proof (relation "measure (\<lambda>x. case x of
            Inl (md, d, s) \<Rightarrow> 3 * length s
          | Inr (Inl (md, d, s, acc)) \<Rightarrow> 3 * length s + 1
          | Inr (Inr (md, d, s, acc)) \<Rightarrow> 3 * length s + 1)", goal_cases)
    case 1
    then show ?case by simp
  next
    case (2 md d s c cs)
    then show ?case using ws [of cs] by simp
  next
    case (3 md d s c cs)
    then show ?case using ws [of cs] by simp
  next
    case (4 md d s acc)
    then show ?case by simp
  next
    case (5 md d s acc x v rest c r)
    then show ?case using wsc [of rest c r] ws [of r] by simp
  next
    case (6 md d s acc q s1 x key r1 col r2)
    then show ?case
      using str [of s1 "[]" key r1] wsc [of r1 col r2] ws [of r2] by simp
  next
    case (7 md d s acc q s1 x key r1 col r2 y v r3 c r4)
    then show ?case
      using str [of s1 "[]" key r1] wsc [of r1 col r2] ws [of r2] wsc [of r3 c r4] ws [of r4]
      by simp
  qed
qed

text \<open>
  \<^verbatim>\<open>json.loads(s)\<close>: a leading U+FEFF is refused, white space around the one value is
  skipped, and anything after it is an error (\<^verbatim>\<open>Extra data\<close>). An exception of the
  scanner goes to the caller as it is.
\<close>

definition json_loads :: "limits \<Rightarrow> pystr \<Rightarrow> exn + pyval" where
  "json_loads lim s =
     (if take 1 s = [0xFEFF] then Inl JSONDecodeError
      else case scan_once (max_digits lim) (max_depth lim) (skip_ws s) of
             Inl e \<Rightarrow> Inl e
           | Inr (v, rest) \<Rightarrow> if skip_ws rest = [] then Inr v else Inl JSONDecodeError)"

section \<open>The evidence ledger\<close>

subsection \<open>The clock\<close>

text \<open>
  \<^verbatim>\<open>now_iso_utc\<close> (lines 82 to 83) reads the clock and formats the aware UTC time with
  \<^verbatim>\<open>isoformat()\<close>. The reading of the clock is an argument of the model.
\<close>

record datetime =
  year :: nat
  month :: nat
  day :: nat
  hour :: nat
  minute :: nat
  second :: nat
  microsecond :: nat

definition zero_pad :: "nat \<Rightarrow> nat \<Rightarrow> pystr" where
  "zero_pad w n = replicate (w - length (dec_digits n)) 0x30 @ dec_digits n"

definition now_iso_utc :: "datetime \<Rightarrow> pystr" where
  "now_iso_utc t =
     zero_pad 4 (year t) @ str_of ''-'' @ zero_pad 2 (month t) @ str_of ''-'' @ zero_pad 2 (day t)
     @ str_of ''T'' @ zero_pad 2 (hour t) @ str_of '':'' @ zero_pad 2 (minute t)
     @ str_of '':'' @ zero_pad 2 (second t)
     @ (if microsecond t = 0 then [] else str_of ''.'' @ zero_pad 6 (microsecond t))
     @ str_of ''+00:00''"

subsection \<open>Building, writing and reading evidence\<close>

text \<open>\<^verbatim>\<open>build_evidence_package\<close> (lines 86 to 95): a dict literal of seven items.\<close>

definition build_evidence_package :: "datetime \<Rightarrow> bytes \<Rightarrow> pystr \<Rightarrow> pystr \<Rightarrow> pyval" where
  "build_evidence_package clock file_bytes filename notes =
     PDict [
       (str_of ''schema'', PStr (str_of ''edu.unie.ud1.evidence.v1'')),
       (str_of ''filename'', PStr filename),
       (str_of ''size_bytes'', PInt (int (length file_bytes))),
       (str_of ''sha256'', PStr (sha256_hex file_bytes)),
       (str_of ''sha512'', PStr (sha512_hex file_bytes)),
       (str_of ''computed_at_utc'', PStr (now_iso_utc clock)),
       (str_of ''notes'', PStr notes)]"

text \<open>
  \<^verbatim>\<open>ledger_to_jsonl\<close> (lines 98 to 99):
  \<^verbatim>\<open>"".join(json.dumps(e, ensure_ascii=False) + "\n" for e in entries)\<close>.
\<close>

definition ledger_to_jsonl :: "pyval list \<Rightarrow> pystr" where
  "ledger_to_jsonl entries = concat (map (\<lambda>e. json_dumps e @ [0x0A]) entries)"

text \<open>
  \<^verbatim>\<open>parse_jsonl\<close> (lines 102 to 113). The loop appends to \<open>out\<close>; the \<^verbatim>\<open>except\<close>
  clause catches \<^verbatim>\<open>json.JSONDecodeError\<close> and nothing else, so any other exception of
  \<^verbatim>\<open>json.loads\<close> leaves the function. The limits of the interpreter that runs the
  program are the argument \<open>lim\<close>, here and in what calls \<open>parse_jsonl\<close>.
\<close>

fun parse_jsonl_loop :: "limits \<Rightarrow> pystr list \<Rightarrow> pyval list \<Rightarrow> exn + pyval list" where
  "parse_jsonl_loop lim [] out = Inr out"
| "parse_jsonl_loop lim (ln # lns) out =
     (let ln' = strip ln in
      if ln' = [] then parse_jsonl_loop lim lns out
      else case json_loads lim ln' of
             Inr v \<Rightarrow> parse_jsonl_loop lim lns (out @ [v])
           | Inl JSONDecodeError \<Rightarrow> parse_jsonl_loop lim lns out
           | Inl e \<Rightarrow> Inl e)"

definition parse_jsonl :: "limits \<Rightarrow> bytes \<Rightarrow> exn + pyval list" where
  "parse_jsonl lim content = parse_jsonl_loop lim (splitlines (decode_utf8_ignore content)) []"

subsection \<open>Verification\<close>

text \<open>
  \<^verbatim>\<open>e.get("sha256")\<close> is the method of a dict: the value of the key, or \<^verbatim>\<open>None\<close>. On a
  value of any other type the attribute lookup raises. \<^verbatim>\<open>== vhash\<close> against a
  \<^verbatim>\<open>str\<close> holds for an equal \<^verbatim>\<open>str\<close> only.
\<close>

definition is_dict :: "pyval \<Rightarrow> bool" where
  "is_dict e = (case e of PDict kvs \<Rightarrow> True | _ \<Rightarrow> False)"

definition py_get :: "pyval \<Rightarrow> pystr \<Rightarrow> exn + pyval" where
  "py_get e k =
     (case e of
        PDict kvs \<Rightarrow> (case map_of kvs k of Some v \<Rightarrow> Inr v | None \<Rightarrow> Inr PNone)
      | _ \<Rightarrow> Inl AttributeError)"

definition eq_str :: "pyval \<Rightarrow> pystr \<Rightarrow> bool" where
  "eq_str v s = (case v of PStr s' \<Rightarrow> s' = s | _ \<Rightarrow> False)"

text \<open>
  The session ledger is a list object that lives between runs of the script, and the
  verification builds its universe with \<^verbatim>\<open>list(...)\<close> and \<^verbatim>\<open>+=\<close>, which changes a
  list in place. Whether the ledger is changed depends on which list object \<^verbatim>\<open>+=\<close>
  works on, so list objects live in a store: an address is an index into \<open>heap\<close>,
  \<open>ledger\<close> is the address \<^verbatim>\<open>st.session_state.ledger\<close> holds.
\<close>

type_synonym addr = nat

record session =
  heap :: "pyval list list"
  ledger :: addr

definition new_list :: "pyval list \<Rightarrow> session \<Rightarrow> addr \<times> session" where
  "new_list xs s = (length (heap s), s\<lparr>heap := heap s @ [xs]\<rparr>)"

definition py_list :: "addr \<Rightarrow> session \<Rightarrow> addr \<times> session" where
  "py_list a s = new_list (heap s ! a) s"

definition list_iadd :: "addr \<Rightarrow> addr \<Rightarrow> session \<Rightarrow> session" where
  "list_iadd a b s = s\<lparr>heap := (heap s)[a := heap s ! a @ heap s ! b]\<rparr>"

definition list_append :: "addr \<Rightarrow> pyval \<Rightarrow> session \<Rightarrow> session" where
  "list_append a v s = s\<lparr>heap := (heap s)[a := heap s ! a @ [v]]\<rparr>"

text \<open>
  Line 22 creates the empty ledger; lines 285 and 294 build a package and append it:
  \<^verbatim>\<open>st.session_state.ledger.append(pkg)\<close>.
\<close>

definition init_session :: session where
  "init_session = \<lparr>heap = [[]], ledger = 0\<rparr>"

definition crear_evidencia :: "datetime \<Rightarrow> bytes \<Rightarrow> pystr \<Rightarrow> pystr \<Rightarrow> session \<Rightarrow> session" where
  "crear_evidencia clock file_bytes name notes s =
     list_append (ledger s) (build_evidence_package clock file_bytes name notes) s"

text \<open>A session in which one document has been registered, for use as an instance.\<close>

definition example_clock :: datetime where
  "example_clock =
     \<lparr>year = 2024, month = 3, day = 5, hour = 9, minute = 7, second = 30, microsecond = 0\<rparr>"

definition example_session :: session where
  "example_session = crear_evidencia example_clock [0x61] (str_of ''a.txt'') [] init_session"

text \<open>
  The comprehension \<^verbatim>\<open>[e for e in evids if e.get("sha256") == vhash]\<close> of line 315: a
  loop that stops at the first exception.
\<close>

fun matches_loop :: "pyval list \<Rightarrow> pystr \<Rightarrow> pyval list \<Rightarrow> exn + pyval list" where
  "matches_loop [] vhash acc = Inr acc"
| "matches_loop (e # es) vhash acc =
     (case py_get e (str_of ''sha256'') of
        Inl x \<Rightarrow> Inl x
      | Inr v \<Rightarrow> matches_loop es vhash (if eq_str v vhash then acc @ [e] else acc))"

text \<open>
  Lines 305 to 315, the work of the \<^verbatim>\<open>Verificar\<close> button once a document is there:
  \<^verbatim>\<open>vbytes\<close> is what \<^verbatim>\<open>ver_file.read()\<close> gave, \<^verbatim>\<open>ver_ledger\<close> the bytes of the
  optional uploaded ledger. The result is \<^verbatim>\<open>matches\<close> (or the exception that ended the
  run) and the session afterwards.
\<close>

definition verify ::
  "limits \<Rightarrow> session \<Rightarrow> bytes \<Rightarrow> bytes option \<Rightarrow> (exn + pyval list) \<times> session" where
  "verify lim s vbytes ver_ledger =
     (let vhash = sha256_hex vbytes;
          (evids, s1) = py_list (ledger s) s
      in case ver_ledger of
           None \<Rightarrow> (matches_loop (heap s1 ! evids) vhash [], s1)
         | Some content \<Rightarrow>
             (case parse_jsonl lim content of
                Inl x \<Rightarrow> (Inl x, s1)
              | Inr recs \<Rightarrow>
                  (let (ext, s2) = new_list recs s1;
                       s3 = list_iadd evids ext s2
                   in (matches_loop (heap s3 ! evids) vhash [], s3))))"

text \<open>
  The export button (lines 332 to 335) offers \<^verbatim>\<open>ledger_to_jsonl(ledger).encode("utf-8")\<close>
  for download; the verification reads such a file back with \<open>parse_jsonl\<close>.
  \<open>export_import\<close> is the one followed by the other.
\<close>

definition export_ledger :: "pyval list \<Rightarrow> exn + bytes" where
  "export_ledger entries = encode_utf8 (ledger_to_jsonl entries)"

definition export_import :: "limits \<Rightarrow> pyval list \<Rightarrow> exn + pyval list" where
  "export_import lim entries =
     (case export_ledger entries of Inl x \<Rightarrow> Inl x | Inr content \<Rightarrow> parse_jsonl lim content)"

subsection \<open>The specification's wording of reading a ledger\<close>

text \<open>
  What the specification says \<^verbatim>\<open>deserialize\<close> does, written as it is said: split the
  text into lines, strip each, leave out the blank ones, parse each of the others on its
  own, drop those that fail (whatever \<^verbatim>\<open>json.loads\<close> raises), keep the order. It is
  compared with \<open>parse_jsonl\<close> below.
\<close>

definition deserialize_spec :: "limits \<Rightarrow> pystr \<Rightarrow> pyval list" where
  "deserialize_spec lim text =
     List.map_filter (\<lambda>ln. case json_loads lim ln of Inr v \<Rightarrow> Some v | Inl e \<Rightarrow> None)
       (filter (\<lambda>ln. ln \<noteq> []) (map strip (splitlines text)))"

text \<open>
  The specification's wording of the verification: the universe is the local ledger
  followed by the records read from the external text, and a record matches when its
  \<^verbatim>\<open>sha256\<close> field is a string equal to the digest.
\<close>

definition sha256_matches :: "pystr \<Rightarrow> pyval \<Rightarrow> bool" where
  "sha256_matches vhash e =
     (case py_get e (str_of ''sha256'') of Inr v \<Rightarrow> eq_str v vhash | Inl x \<Rightarrow> False)"

definition external_records :: "limits \<Rightarrow> bytes option \<Rightarrow> pyval list" where
  "external_records lim ver_ledger =
     (case ver_ledger of
        None \<Rightarrow> []
      | Some content \<Rightarrow> deserialize_spec lim (decode_utf8_ignore content))"

subsection \<open>Predicates used in the statements\<close>

definition is_lower_hex :: "nat \<Rightarrow> bool" where
  "is_lower_hex c = (48 \<le> c \<and> c \<le> 57 \<or> 97 \<le> c \<and> c \<le> 102)"

text \<open>
  A code point that strict UTF-8 encodes (a Unicode scalar value), and a character that
  \<^verbatim>\<open>json.dumps\<close> copies as it is and that ends no line (printable ASCII but the quote
  and the backslash).
\<close>

definition valid_cp :: "nat \<Rightarrow> bool" where
  "valid_cp c = (c < 0x110000 \<and> \<not> (0xD800 \<le> c \<and> c \<le> 0xDFFF))"

definition is_safe :: "nat \<Rightarrow> bool" where
  "is_safe c = (32 \<le> c \<and> c < 127 \<and> c \<noteq> 0x22 \<and> c \<noteq> 0x5C)"

text \<open>
  A character of a file name or of notes that comes back from an exported ledger: a
  scalar value other than the three line boundaries of \<^verbatim>\<open>splitlines\<close> that
  \<^verbatim>\<open>json.dumps\<close> copies as they are. And a character that may stand in a line of the
  ledger text without ending it.
\<close>

definition line_safe :: "nat \<Rightarrow> bool" where
  "line_safe c = (valid_cp c \<and> c \<noteq> 0x85 \<and> c \<noteq> 0x2028 \<and> c \<noteq> 0x2029)"

definition ok_char :: "nat \<Rightarrow> bool" where
  "ok_char c = (valid_cp c \<and> \<not> is_linebreak c)"

declare scan_once.simps [simp del] array_loop.simps [simp del] object_loop.simps [simp del]

section \<open>The digests\<close>

lemma length_hexdigest: "length (hexdigest d) = 2 * length d"
  by (induction d) (simp_all add: hexdigest_def hex_byte_def)

lemma length_be_bytes: "length (be_bytes n w) = n"
  by (simp add: be_bytes_def)

lemma length_concat_be_bytes: "length (concat (map (be_bytes n) ws)) = n * length ws"
  by (induction ws) (simp_all add: length_be_bytes)

lemma length_round256: "length (round256 w v t) = length v"
  by (induction w v t rule: round256.induct) (simp_all add: Let_def)

lemma length_rounds256: "length (foldl (round256 w) v ts) = length v"
  by (induction ts arbitrary: v) (simp_all add: length_round256)

lemma length_compress256: "length (compress256 hs blk) = length hs"
  by (simp add: compress256_def length_rounds256)

lemma length_foldl_compress256: "length (foldl compress256 hs blks) = length hs"
  by (induction blks arbitrary: hs) (simp_all add: length_compress256)

lemma length_sha256_digest: "length (sha256_digest m) = 32"
  by (simp add: sha256_digest_def length_concat_be_bytes length_foldl_compress256 H256_def)

lemma length_round512: "length (round512 w v t) = length v"
  by (induction w v t rule: round512.induct) (simp_all add: Let_def)

lemma length_rounds512: "length (foldl (round512 w) v ts) = length v"
  by (induction ts arbitrary: v) (simp_all add: length_round512)

lemma length_compress512: "length (compress512 hs blk) = length hs"
  by (simp add: compress512_def length_rounds512)

lemma length_foldl_compress512: "length (foldl compress512 hs blks) = length hs"
  by (induction blks arbitrary: hs) (simp_all add: length_compress512)

lemma length_sha512_digest: "length (sha512_digest m) = 64"
  by (simp add: sha512_digest_def length_concat_be_bytes length_foldl_compress512 H512_def)

lemma hex_digit_lower: "n < 16 \<Longrightarrow> is_lower_hex (hex_digit n)"
  by (auto simp: is_lower_hex_def hex_digit_def)

lemma hex_byte_lower: "list_all is_lower_hex (hex_byte b)"
proof -
  have "unat b < 256" using unsigned_less [of b] by simp
  then have "unat b div 16 < 16" by simp
  then show ?thesis by (simp add: hex_byte_def hex_digit_lower)
qed

lemma hexdigest_lower: "list_all is_lower_hex (hexdigest d)"
  by (induction d) (simp_all add: hexdigest_def hex_byte_lower)

text \<open>The digest of the empty input, as the standard gives it.\<close>

lemma sha256_hex_empty:
  "sha256_hex [] = str_of ''e3b0c44298fc1c149afbf4c8996fb92427ae41e4649b934ca495991b7852b855''"
  by code_simp

text \<open>
  C6. For every byte sequence, the empty one included, \<open>sha256_hex\<close> returns 64 and
  \<open>sha512_hex\<close> returns 128 characters, each a lowercase hexadecimal digit. Both are
  functions of the bytes alone (they read no state and return no exception), so equal
  inputs give equal results and no call fails.
\<close>

theorem digests_are_lowercase_hex:
  "length (sha256_hex b) = 64 \<and> list_all is_lower_hex (sha256_hex b)
   \<and> length (sha512_hex b) = 128 \<and> list_all is_lower_hex (sha512_hex b)"
  by (simp add: sha256_hex_def sha512_hex_def length_hexdigest length_sha256_digest
      length_sha512_digest hexdigest_lower)

section \<open>The scanner always consumes input\<close>

lemma str_of_simps: "str_of [] = []" "str_of (c # cs) = of_char c # str_of cs"
  by (simp_all add: str_of_def)

lemma length_skip_ws: "length (skip_ws s) \<le> length s"
  unfolding skip_ws_def by (rule length_dropWhile_le)

lemma skip_ws_Cons_shorter: "skip_ws s = d # r \<Longrightarrow> length r < length s"
  using length_skip_ws [of s] by simp

lemma scanstring_shorter: "scanstring s acc = Some (k, r) \<Longrightarrow> length r < length s"
proof (induction s acc rule: scanstring.induct)
  case (1 acc)
  then show ?case by simp
next
  case (2 c cs acc)
  then show ?case
    by (auto split: if_splits list.splits option.splits simp del: hex4.simps; force)
qed

lemma match_exp_shorter: "match_exp s = (ep, r) \<Longrightarrow> length r \<le> length s"
  by (auto simp: match_exp_def Let_def split: list.splits if_splits
      intro: le_trans [OF length_dropWhile_le])

lemma match_frac_shorter: "match_frac s = (fp, r) \<Longrightarrow> length r \<le> length s"
  by (auto simp: match_frac_def split: list.splits if_splits
      intro: le_trans [OF length_dropWhile_le])

lemma match_int_shorter: "match_int s = Some (ip, r) \<Longrightarrow> length r < length s"
  by (auto simp: match_int_def split: list.splits if_splits
      intro: le_imp_less_Suc [OF length_dropWhile_le])

lemma match_number_shorter:
  assumes "match_number md s = Inr (v, r)"
  shows "length r < length s"
proof -
  define sgn :: pystr where "sgn = (if take 1 s = [0x2D] then [0x2D] else [])"
  from assms obtain ip r0 where mi: "match_int (drop (length sgn) s) = Some (ip, r0)"
    unfolding match_number_def sgn_def [symmetric] Let_def by (auto split: option.splits)
  obtain fp r1 where fr: "match_frac r0 = (fp, r1)" by force
  obtain ep r2 where ex: "match_exp r1 = (ep, r2)" by force
  from assms mi fr ex have "r = r2"
    unfolding match_number_def sgn_def [symmetric] Let_def by (auto split: if_splits)
  moreover have "length r2 \<le> length r1" using ex by (rule match_exp_shorter)
  moreover have "length r1 \<le> length r0" using fr by (rule match_frac_shorter)
  moreover have "length r0 < length (drop (length sgn) s)" using mi by (rule match_int_shorter)
  ultimately show ?thesis by simp
qed

lemma match_constant_shorter: "match_constant s = Some (v, r) \<Longrightarrow> length r < length s"
  by (cases s) (auto simp: match_constant_def str_of_def split: if_splits)

text \<open>
  Whatever \<open>scan_once\<close> and the two loops return, the input left is shorter than the
  input given. So the comparison of lengths in the loops never fails, and the loops are
  the library's loops.
\<close>

lemma scan_loops_shorter:
  "scan_once md d s = Inr (v, r) \<Longrightarrow> length r < length s"
  "array_loop md1 d1 s1 acc1 = Inr (v1, r1) \<Longrightarrow> length r1 < length s1"
  "object_loop md2 d2 s2 acc2 = Inr (v2, r2) \<Longrightarrow> length r2 < length s2"
proof (induction md d s and md1 d1 s1 acc1 and md2 d2 s2 acc2 arbitrary: v r and v1 r1 and v2 r2
    rule: scan_once_array_loop_object_loop.induct)
  case (1 md d s)
  from "1.prems" obtain c cs where s: "s = c # cs"
    by (cases s) (simp_all add: scan_once.simps)
  consider (str) "c = 0x22" | (obj) "c \<noteq> 0x22" "c = 0x7B"
    | (arr) "c \<noteq> 0x22" "c \<noteq> 0x7B" "c = 0x5B"
    | (other) "c \<noteq> 0x22" "c \<noteq> 0x7B" "c \<noteq> 0x5B"
    by blast
  then show ?case
  proof cases
    case str
    with "1.prems" s obtain k where "scanstring cs [] = Some (k, r)"
      by (auto simp: scan_once.simps split: option.splits)
    then have "length r < length cs" by (rule scanstring_shorter)
    with s show ?thesis by simp
  next
    case obj
    from "1.prems" s obj have d: "d \<noteq> 0"
      by (auto simp: scan_once.simps split: if_splits)
    show ?thesis
    proof (cases "take 1 (skip_ws cs) = [0x7D]")
      case True
      with "1.prems" s obj d have "r = drop 1 (skip_ws cs)"
        by (simp add: scan_once.simps)
      with s length_skip_ws [of cs] show ?thesis by simp
    next
      case False
      with "1.prems" s obj d have "object_loop md (d - 1) (skip_ws cs) [] = Inr (v, r)"
        by (simp add: scan_once.simps)
      with "1.IH"(1) [OF s obj(1) obj(2) d False] have "length r < length (skip_ws cs)" by simp
      with s length_skip_ws [of cs] show ?thesis by simp
    qed
  next
    case arr
    from "1.prems" s arr have d: "d \<noteq> 0"
      by (auto simp: scan_once.simps split: if_splits)
    show ?thesis
    proof (cases "take 1 (skip_ws cs) = [0x5D]")
      case True
      with "1.prems" s arr d have "r = drop 1 (skip_ws cs)"
        by (simp add: scan_once.simps)
      with s length_skip_ws [of cs] show ?thesis by simp
    next
      case False
      with "1.prems" s arr d have "array_loop md (d - 1) (skip_ws cs) [] = Inr (v, r)"
        by (simp add: scan_once.simps)
      with "1.IH"(2) [OF s arr(1) arr(2) arr(3) d False] have "length r < length (skip_ws cs)"
        by simp
      with s length_skip_ws [of cs] show ?thesis by simp
    qed
  next
    case other
    with "1.prems" s have "match_constant s = Some (v, r) \<or> match_number md s = Inr (v, r)"
      by (auto simp: scan_once.simps split: option.splits)
    then show ?thesis
      using match_constant_shorter match_number_shorter by blast
  qed
next
  case (2 md d s acc)
  from "2.prems" obtain v0 rest where so: "scan_once md d s = Inr (v0, rest)"
    by (subst (asm) array_loop.simps) (auto split: sum.splits)
  then have rest: "length rest < length s" by (rule "2.IH"(1))
  with "2.prems" so obtain c r where sk: "skip_ws rest = c # r"
    by (subst (asm) array_loop.simps) (auto split: list.splits)
  have r: "length r < length rest" using sk by (rule skip_ws_Cons_shorter)
  show ?case
  proof (cases "c = 0x5D")
    case True
    with "2.prems" so rest sk have "r1 = r"
      by (subst (asm) array_loop.simps) simp
    with r rest show ?thesis by simp
  next
    case False
    with "2.prems" so rest sk have c: "c = 0x2C" and
      rec: "array_loop md d (skip_ws r) (acc @ [v0]) = Inr (v1, r1)"
      by (subst (asm) array_loop.simps, simp split: if_splits)+
    from rest have ng: "\<not> length s < length rest" by simp
    have "length r1 < length (skip_ws r)"
      using "2.IH"(2) [OF so refl ng sk False c rec] .
    with length_skip_ws [of r] r rest show ?thesis by simp
  qed
next
  case (3 md d s acc)
  from "3.prems" obtain q s1 where s: "s = q # s1" and q: "q = 0x22"
    by (subst (asm) object_loop.simps) (auto split: list.splits if_splits)
  from "3.prems" s q obtain key r1' where ss: "scanstring s1 [] = Some (key, r1')"
    by (subst (asm) object_loop.simps) (auto split: option.splits)
  from "3.prems" s q ss obtain col r2' where sk1: "skip_ws r1' = col # r2'" and col: "col = 0x3A"
    by (subst (asm) object_loop.simps) (auto split: list.splits if_splits)
  from "3.prems" s q ss sk1 col obtain v0 r3 where
    so: "scan_once md d (skip_ws r2') = Inr (v0, r3)"
    by (subst (asm) object_loop.simps) (auto split: sum.splits)
  have nq: "\<not> q \<noteq> 0x22" using q by simp
  have nc: "\<not> col \<noteq> 0x3A" using col by simp
  have r3: "length r3 < length (skip_ws r2')"
    using "3.IH"(1) [OF s nq ss refl sk1 nc so] .
  then have ng: "\<not> length (skip_ws r2') < length r3" by simp
  from "3.prems" s q ss sk1 col so r3 obtain c r4 where sk3: "skip_ws r3 = c # r4"
    by (subst (asm) object_loop.simps) (auto split: list.splits)
  have chain: "length r4 < length s"
    using skip_ws_Cons_shorter [OF sk3] r3 length_skip_ws [of r2'] skip_ws_Cons_shorter [OF sk1]
      scanstring_shorter [OF ss] s by simp
  show ?case
  proof (cases "c = 0x7D")
    case True
    with "3.prems" s q ss sk1 col so r3 sk3 have "r2 = r4"
      by (subst (asm) object_loop.simps) simp
    with chain show ?thesis by simp
  next
    case False
    with "3.prems" s q ss sk1 col so r3 sk3 have c: "c = 0x2C" and
      rec: "object_loop md d (skip_ws r4) (dict_set acc key v0) = Inr (v2, r2)"
      by (subst (asm) object_loop.simps, simp split: if_splits)+
    have "length r2 < length (skip_ws r4)"
      using "3.IH"(2) [OF s nq ss refl sk1 nc so refl ng sk3 False c rec] .
    with length_skip_ws [of r4] chain show ?thesis by simp
  qed
qed

lemma array_loop_eq:
  "array_loop md d s acc =
     (case scan_once md d s of
        Inl e \<Rightarrow> Inl e
      | Inr (v, rest) \<Rightarrow>
          (case skip_ws rest of
             [] \<Rightarrow> Inl JSONDecodeError
           | c # r \<Rightarrow>
               if c = 0x5D then Inr (PList (acc @ [v]), r)
               else if c = 0x2C then array_loop md d (skip_ws r) (acc @ [v])
               else Inl JSONDecodeError))"
  by (subst array_loop.simps) (auto split: sum.splits dest: scan_loops_shorter(1))

lemma object_loop_eq:
  "object_loop md d s acc =
     (case s of
        [] \<Rightarrow> Inl JSONDecodeError
      | q # s1 \<Rightarrow>
          if q \<noteq> 0x22 then Inl JSONDecodeError
          else
            (case scanstring s1 [] of
               None \<Rightarrow> Inl JSONDecodeError
             | Some (key, r1) \<Rightarrow>
                 (case skip_ws r1 of
                    [] \<Rightarrow> Inl JSONDecodeError
                  | col # r2 \<Rightarrow>
                      if col \<noteq> 0x3A then Inl JSONDecodeError
                      else
                        (case scan_once md d (skip_ws r2) of
                           Inl e \<Rightarrow> Inl e
                         | Inr (v, r3) \<Rightarrow>
                             (case skip_ws r3 of
                                [] \<Rightarrow> Inl JSONDecodeError
                              | c # r4 \<Rightarrow>
                                  if c = 0x7D then Inr (PDict (dict_set acc key v), r4)
                                  else if c = 0x2C
                                    then object_loop md d (skip_ws r4) (dict_set acc key v)
                                  else Inl JSONDecodeError)))))"
  by (subst object_loop.simps)
    (auto split: option.splits list.splits sum.splits dest: scan_loops_shorter(1))

text \<open>
  The exceptions of the scanner, and so of \<^verbatim>\<open>json.loads\<close>, are of three classes and
  no other.
\<close>

lemma match_number_raises:
  "match_number md s = Inl e \<Longrightarrow> e = JSONDecodeError \<or> e = ValueError"
  by (auto simp: match_number_def Let_def split: option.splits prod.splits if_splits)

lemma scan_loops_raise:
  "scan_once md d s = Inl e \<Longrightarrow> e = JSONDecodeError \<or> e = RecursionError \<or> e = ValueError"
  "array_loop md1 d1 s1 acc1 = Inl e1 \<Longrightarrow>
     e1 = JSONDecodeError \<or> e1 = RecursionError \<or> e1 = ValueError"
  "object_loop md2 d2 s2 acc2 = Inl e2 \<Longrightarrow>
     e2 = JSONDecodeError \<or> e2 = RecursionError \<or> e2 = ValueError"
proof (induction md d s and md1 d1 s1 acc1 and md2 d2 s2 acc2 arbitrary: e and e1 and e2
    rule: scan_once_array_loop_object_loop.induct)
  case (1 md d s)
  show ?case
  proof (cases s)
    case Nil
    with "1.prems" show ?thesis by (simp add: scan_once.simps)
  next
    case s: (Cons c cs)
    consider (str) "c = 0x22" | (obj) "c \<noteq> 0x22" "c = 0x7B"
      | (arr) "c \<noteq> 0x22" "c \<noteq> 0x7B" "c = 0x5B"
      | (other) "c \<noteq> 0x22" "c \<noteq> 0x7B" "c \<noteq> 0x5B"
      by blast
    then show ?thesis
    proof cases
      case str
      with "1.prems" s show ?thesis
        by (auto simp: scan_once.simps split: option.splits)
    next
      case obj
      show ?thesis
      proof (cases "d = 0")
        case True
        with "1.prems" s obj show ?thesis by (simp add: scan_once.simps)
      next
        case d: False
        show ?thesis
        proof (cases "take 1 (skip_ws cs) = [0x7D]")
          case True
          with "1.prems" s obj d show ?thesis by (simp add: scan_once.simps)
        next
          case False
          with "1.prems" s obj d have "object_loop md (d - 1) (skip_ws cs) [] = Inl e"
            by (simp add: scan_once.simps)
          with "1.IH"(1) [OF s obj(1) obj(2) d False] show ?thesis by simp
        qed
      qed
    next
      case arr
      show ?thesis
      proof (cases "d = 0")
        case True
        with "1.prems" s arr show ?thesis by (simp add: scan_once.simps)
      next
        case d: False
        show ?thesis
        proof (cases "take 1 (skip_ws cs) = [0x5D]")
          case True
          with "1.prems" s arr d show ?thesis by (simp add: scan_once.simps)
        next
          case False
          with "1.prems" s arr d have "array_loop md (d - 1) (skip_ws cs) [] = Inl e"
            by (simp add: scan_once.simps)
          with "1.IH"(2) [OF s arr(1) arr(2) arr(3) d False] show ?thesis by simp
        qed
      qed
    next
      case other
      with "1.prems" s have "match_number md s = Inl e"
        by (auto simp: scan_once.simps split: option.splits)
      then show ?thesis using match_number_raises by blast
    qed
  qed
next
  case (2 md d s acc)
  show ?case
  proof (cases "scan_once md d s")
    case (Inl x)
    with "2.prems" have "e1 = x" by (subst (asm) array_loop_eq) simp
    with "2.IH"(1) [OF Inl] show ?thesis by simp
  next
    case (Inr p)
    obtain v0 rest where p: "p = (v0, rest)" by (cases p)
    with Inr have so: "scan_once md d s = Inr (v0, rest)" by simp
    then have "length rest < length s" by (rule scan_loops_shorter(1))
    then have ng: "\<not> length s < length rest" by simp
    show ?thesis
    proof (cases "skip_ws rest")
      case Nil
      with "2.prems" so show ?thesis by (subst (asm) array_loop_eq) simp
    next
      case sk: (Cons c r)
      show ?thesis
      proof (cases "c = 0x5D")
        case True
        with "2.prems" so sk show ?thesis by (subst (asm) array_loop_eq) simp
      next
        case nb: False
        show ?thesis
        proof (cases "c = 0x2C")
          case True
          with "2.prems" so sk nb have "array_loop md d (skip_ws r) (acc @ [v0]) = Inl e1"
            by (subst (asm) array_loop_eq) simp
          from "2.IH"(2) [OF so refl ng sk nb True this] show ?thesis .
        next
          case False
          with "2.prems" so sk nb show ?thesis by (subst (asm) array_loop_eq) simp
        qed
      qed
    qed
  qed
next
  case (3 md d s acc)
  show ?case
  proof (cases s)
    case Nil
    with "3.prems" show ?thesis by (subst (asm) object_loop_eq) simp
  next
    case s: (Cons q s1)
    show ?thesis
    proof (cases "q \<noteq> 0x22")
      case True
      with "3.prems" s show ?thesis by (subst (asm) object_loop_eq) simp
    next
      case nq: False
      show ?thesis
      proof (cases "scanstring s1 []")
        case None
        with "3.prems" s nq show ?thesis by (subst (asm) object_loop_eq) simp
      next
        case (Some kr)
        obtain key r1' where "kr = (key, r1')" by (cases kr)
        with Some have ss: "scanstring s1 [] = Some (key, r1')" by simp
        show ?thesis
        proof (cases "skip_ws r1'")
          case Nil
          with "3.prems" s nq ss show ?thesis by (subst (asm) object_loop_eq) simp
        next
          case sk1: (Cons col r2')
          show ?thesis
          proof (cases "col \<noteq> 0x3A")
            case True
            with "3.prems" s nq ss sk1 show ?thesis by (subst (asm) object_loop_eq) simp
          next
            case nc: False
            show ?thesis
            proof (cases "scan_once md d (skip_ws r2')")
              case (Inl x)
              with "3.prems" s nq ss sk1 nc have "e2 = x"
                by (subst (asm) object_loop_eq) simp
              with "3.IH"(1) [OF s nq ss refl sk1 nc Inl] show ?thesis by simp
            next
              case (Inr p)
              obtain v0 r3 where "p = (v0, r3)" by (cases p)
              with Inr have so: "scan_once md d (skip_ws r2') = Inr (v0, r3)" by simp
              then have "length r3 < length (skip_ws r2')" by (rule scan_loops_shorter(1))
              then have ng: "\<not> length (skip_ws r2') < length r3" by simp
              show ?thesis
              proof (cases "skip_ws r3")
                case Nil
                with "3.prems" s nq ss sk1 nc so show ?thesis
                  by (subst (asm) object_loop_eq) simp
              next
                case sk3: (Cons c r4)
                show ?thesis
                proof (cases "c = 0x7D")
                  case True
                  with "3.prems" s nq ss sk1 nc so sk3 show ?thesis
                    by (subst (asm) object_loop_eq) simp
                next
                  case nb: False
                  show ?thesis
                  proof (cases "c = 0x2C")
                    case True
                    with "3.prems" s nq ss sk1 nc so sk3 nb
                    have "object_loop md d (skip_ws r4) (dict_set acc key v0) = Inl e2"
                      by (subst (asm) object_loop_eq) simp
                    from "3.IH"(2) [OF s nq ss refl sk1 nc so refl ng sk3 nb True this]
                    show ?thesis .
                  next
                    case False
                    with "3.prems" s nq ss sk1 nc so sk3 nb show ?thesis
                      by (subst (asm) object_loop_eq) simp
                  qed
                qed
              qed
            qed
          qed
        qed
      qed
    qed
  qed
qed

lemma json_loads_raises:
  "json_loads lim s = Inl e \<Longrightarrow> e = JSONDecodeError \<or> e = RecursionError \<or> e = ValueError"
  by (auto simp: json_loads_def split: if_splits sum.splits dest: scan_loops_raise(1))

text \<open>
  What the loop of \<open>parse_jsonl\<close> does with the lines. When it returns, it returns what
  the specification describes; it returns whenever \<^verbatim>\<open>json.loads\<close> raises nothing but
  \<^verbatim>\<open>JSONDecodeError\<close> on the lines; and what it raises is an exception that
  \<^verbatim>\<open>json.loads\<close> raised on a line and that is no \<^verbatim>\<open>JSONDecodeError\<close>.
\<close>

lemma parse_jsonl_loop_returns:
  "parse_jsonl_loop lim lns out = Inr recs \<Longrightarrow>
   recs = out @ List.map_filter (\<lambda>ln. case json_loads lim ln of Inr v \<Rightarrow> Some v | Inl e \<Rightarrow> None)
       (filter (\<lambda>ln. ln \<noteq> []) (map strip lns))"
proof (induction lns arbitrary: out)
  case Nil
  then show ?case by (simp add: List.map_filter_simps)
next
  case (Cons ln lns)
  show ?case
  proof (cases "strip ln = []")
    case True
    with Cons.prems have "parse_jsonl_loop lim lns out = Inr recs" by simp
    from Cons.IH [OF this] True show ?thesis by simp
  next
    case False
    show ?thesis
    proof (cases "json_loads lim (strip ln)")
      case (Inl e)
      with Cons.prems False have "parse_jsonl_loop lim lns out = Inr recs"
        by (cases e) simp_all
      from Cons.IH [OF this] Inl False show ?thesis by (simp add: List.map_filter_simps)
    next
      case (Inr v)
      with Cons.prems False have "parse_jsonl_loop lim lns (out @ [v]) = Inr recs" by simp
      from Cons.IH [OF this] Inr False show ?thesis by (simp add: List.map_filter_simps)
    qed
  qed
qed

lemma parse_jsonl_loop_raises:
  "parse_jsonl_loop lim lns out = Inl e \<Longrightarrow>
   e \<noteq> JSONDecodeError \<and> (\<exists>ln \<in> set lns. json_loads lim (strip ln) = Inl e)"
proof (induction lns arbitrary: out)
  case Nil
  then show ?case by simp
next
  case (Cons ln lns)
  show ?case
  proof (cases "strip ln = []")
    case True
    with Cons.prems have "parse_jsonl_loop lim lns out = Inl e" by simp
    from Cons.IH [OF this] show ?thesis by simp
  next
    case False
    show ?thesis
    proof (cases "json_loads lim (strip ln)")
      case (Inl x)
      show ?thesis
      proof (cases "x = JSONDecodeError")
        case True
        with Cons.prems False Inl have "parse_jsonl_loop lim lns out = Inl e" by simp
        from Cons.IH [OF this] show ?thesis by simp
      next
        case ne: False
        with Cons.prems False Inl have "e = x" by (cases x) simp_all
        with ne Inl show ?thesis by simp
      qed
    next
      case (Inr v)
      with Cons.prems False have "parse_jsonl_loop lim lns (out @ [v]) = Inl e" by simp
      from Cons.IH [OF this] show ?thesis by simp
    qed
  qed
qed

lemma parse_jsonl_loop_spec:
  assumes "\<And>ln e. ln \<in> set lns \<Longrightarrow> json_loads lim (strip ln) = Inl e \<Longrightarrow> e = JSONDecodeError"
  shows "parse_jsonl_loop lim lns out =
     Inr (out @ List.map_filter (\<lambda>ln. case json_loads lim ln of Inr v \<Rightarrow> Some v | Inl e \<Rightarrow> None)
       (filter (\<lambda>ln. ln \<noteq> []) (map strip lns)))"
proof (cases "parse_jsonl_loop lim lns out")
  case (Inl e)
  from parse_jsonl_loop_raises [OF this] assms show ?thesis by blast
next
  case (Inr recs)
  from parse_jsonl_loop_returns [OF this] Inr show ?thesis by simp
qed

section \<open>Evaluation rules\<close>

text \<open>The definitions that closed instances below are evaluated with.\<close>

lemmas text_defs = splitlines_def is_linebreak_def strip_def isspace_def utf8_seq_def cont_def

lemmas json_defs = json_loads_def skip_ws_def is_json_ws_def scan_once.simps array_loop_eq
  object_loop_eq match_constant_def match_number_def match_int_def match_frac_def match_exp_def
  is_digit_def int_of_digits_def hex_val_def unescape_def is_high_surrogate_def
  is_low_surrogate_def join_surrogates_def Let_def str_of_simps

lemmas verify_defs = verify_def init_session_def py_list_def new_list_def list_iadd_def
  py_get_def eq_str_def parse_jsonl_def

section \<open>Reading a ledger\<close>

lemma is_dict_simps:
  "is_dict (PDict kvs)" "\<not> is_dict PNone" "\<not> is_dict (PBool b)" "\<not> is_dict (PInt i)"
  "\<not> is_dict (PFloat r)" "\<not> is_dict (PStr s)" "\<not> is_dict (PList xs)"
  by (simp_all add: is_dict_def)

lemma parse_jsonl_returns:
  "parse_jsonl lim content = Inr recs \<Longrightarrow>
   recs = deserialize_spec lim (decode_utf8_ignore content)"
  unfolding parse_jsonl_def deserialize_spec_def
  by (drule parse_jsonl_loop_returns) simp

lemma parse_jsonl_raises:
  "parse_jsonl lim content = Inl e \<Longrightarrow>
   (e = RecursionError \<or> e = ValueError)
   \<and> (\<exists>ln \<in> set (splitlines (decode_utf8_ignore content)). json_loads lim (strip ln) = Inl e)"
  unfolding parse_jsonl_def
  by (drule parse_jsonl_loop_raises) (auto dest: json_loads_raises)

lemma parse_jsonl_spec:
  assumes "\<And>ln e. ln \<in> set (splitlines (decode_utf8_ignore content)) \<Longrightarrow>
      json_loads lim (strip ln) = Inl e \<Longrightarrow> e = JSONDecodeError"
  shows "parse_jsonl lim content = Inr (deserialize_spec lim (decode_utf8_ignore content))"
  unfolding parse_jsonl_def deserialize_spec_def
  using parse_jsonl_loop_spec [of "splitlines (decode_utf8_ignore content)" lim "[]"] assms
  by simp

text \<open>
  A text with one JSON line and one line of garbage gives the one record: the line that
  does not parse is dropped.
\<close>

lemma parse_jsonl_drops_garbage:
  "0 < max_depth lim \<Longrightarrow>
   parse_jsonl lim (map of_nat
       (str_of ''{\"sha256\": \"ab\"}'' @ [0x0A] @ str_of ''not json'' @ [0x0A]))
     = Inr [PDict [(str_of ''sha256'', PStr (str_of ''ab''))]]"
  by (simp add: parse_jsonl_def text_defs json_defs)

text \<open>
  C10. \<open>parse_jsonl\<close> keeps every line that is valid JSON, whatever its type: a ledger
  text with the lines \<^verbatim>\<open>5\<close>, \<^verbatim>\<open>[]\<close> and \<^verbatim>\<open>"x"\<close> gives a number, a list and a
  string, none of them a mapping. This is so on every interpreter that lets the scanner
  open the one list; where it cannot open any, the line \<^verbatim>\<open>[]\<close> ends the run.
\<close>

theorem parse_jsonl_keeps_non_mappings:
  "parse_jsonl lim (map of_nat (str_of ''5'' @ [0x0A] @ str_of ''[]'' @ [0x0A] @ str_of ''\"x\"''))
     = (if max_depth lim = 0 then Inl RecursionError
        else Inr [PInt 5, PList [], PStr (str_of ''x'')])
   \<and> \<not> is_dict (PInt 5) \<and> \<not> is_dict (PList []) \<and> \<not> is_dict (PStr (str_of ''x''))"
  by (simp add: parse_jsonl_def text_defs json_defs is_dict_simps)

section \<open>Lines on which reading a ledger raises\<close>

text \<open>
  \<^verbatim>\<open>json.loads\<close> raises \<^verbatim>\<open>RecursionError\<close> on a line that nests more containers than
  the interpreter has room for, and \<^verbatim>\<open>ValueError\<close> on an integer literal with more
  digits than the interpreter converts. Both lines are valid JSON, neither exception is
  a \<^verbatim>\<open>JSONDecodeError\<close>, and so \<open>parse_jsonl\<close> does not drop the line: it raises.
\<close>

lemma decode_ascii:
  "list_all (\<lambda>b. b < 0x80) bs \<Longrightarrow> decode_utf8_ignore bs = map unat bs"
  by (induction bs) simp_all

lemma splitlines_no_break:
  "list_all (\<lambda>c. \<not> is_linebreak c) xs \<Longrightarrow>
   splitlines_from cur xs = (if cur @ xs = [] then [] else [cur @ xs])"
  by (induction xs arbitrary: cur) (auto simp: is_linebreak_def)

lemma strip_no_space:
  assumes "xs \<noteq> []" "\<not> isspace (hd xs)" "\<not> isspace (last xs)"
  shows "strip xs = xs"
proof -
  have "dropWhile isspace xs = xs"
    using assms(2) by (simp add: dropWhile_eq_self_iff)
  moreover have "dropWhile isspace (rev xs) = rev xs"
    using assms(1,3) by (simp add: dropWhile_eq_self_iff hd_rev)
  ultimately show ?thesis by (simp add: strip_def)
qed

lemma skip_ws_no_space: "xs \<noteq> [] \<Longrightarrow> \<not> is_json_ws (hd xs) \<Longrightarrow> skip_ws xs = xs"
  by (simp add: skip_ws_def dropWhile_eq_self_iff)

lemma scan_once_deep:
  "d < n \<Longrightarrow> scan_once md d (replicate n 0x5B @ rest) = Inl RecursionError"
proof (induction d arbitrary: n)
  case 0
  then obtain m where "n = Suc m" by (cases n) simp_all
  then show ?case by (simp add: scan_once.simps)
next
  case (Suc d)
  then obtain m where n: "n = Suc m" and m: "d < m" by (cases n) simp_all
  from m obtain k where k: "m = Suc k" by (cases m) simp_all
  have sk: "skip_ws (replicate m 0x5B @ rest) = replicate m 0x5B @ rest"
    by (rule skip_ws_no_space) (simp_all add: k is_json_ws_def)
  have "array_loop md d (replicate m 0x5B @ rest) [] = Inl RecursionError"
    by (subst array_loop_eq) (simp add: Suc.IH [OF m])
  then show ?case by (simp add: n scan_once.simps sk) (simp add: k)
qed

lemma json_loads_deep:
  "json_loads lim (replicate (Suc (max_depth lim)) 0x5B @ rest) = Inl RecursionError"
proof -
  have "skip_ws (replicate (Suc (max_depth lim)) 0x5B @ rest)
      = replicate (Suc (max_depth lim)) 0x5B @ rest"
    by (rule skip_ws_no_space) (simp_all add: is_json_ws_def)
  then show ?thesis
    using scan_once_deep [of "max_depth lim" "Suc (max_depth lim)" "max_digits lim" rest]
    by (simp add: json_loads_def)
qed

lemma parse_jsonl_one_line:
  assumes "list_all (\<lambda>b. b < 0x80) bs"
    and "list_all (\<lambda>c. \<not> is_linebreak c) (map unat bs)"
    and "bs \<noteq> []" "\<not> isspace (unat (hd bs))" "\<not> isspace (unat (last bs))"
  shows "parse_jsonl lim bs =
     (case json_loads lim (map unat bs) of
        Inr v \<Rightarrow> Inr [v]
      | Inl JSONDecodeError \<Rightarrow> Inr []
      | Inl e \<Rightarrow> Inl e)"
proof -
  have st: "strip (map unat bs) = map unat bs"
    using assms(3-5) by (intro strip_no_space) (simp_all add: hd_map last_map)
  show ?thesis
    using assms(3)
    by (simp add: parse_jsonl_def decode_ascii [OF assms(1)] splitlines_def
        splitlines_no_break [OF assms(2)] st split: sum.splits exn.splits)
qed

text \<open>
  C5. The claim: reading a ledger drops the lines that do not parse and never raises.
  It does raise. On an interpreter that lets the scanner open \<open>max_depth lim\<close>
  containers, the line of one more \<^verbatim>\<open>[\<close> followed by as many \<^verbatim>\<open>]\<close>, which is valid
  JSON, makes \<^verbatim>\<open>json.loads\<close> raise \<^verbatim>\<open>RecursionError\<close>; the \<^verbatim>\<open>except\<close> clause of
  \<open>parse_jsonl\<close> does not catch it, and the function returns no list. There is such a
  line whatever the limit is. (What \<open>parse_jsonl\<close> returns when it returns is what the
  claim says: \<open>parse_jsonl_returns\<close>, \<open>parse_jsonl_spec\<close>, \<open>parse_jsonl_drops_garbage\<close>.)
\<close>

theorem parse_jsonl_raises_on_deep_nesting:
  "parse_jsonl lim
     (replicate (Suc (max_depth lim)) 0x5B @ replicate (Suc (max_depth lim)) 0x5D)
   = Inl RecursionError"
proof -
  let ?bs = "replicate (Suc (max_depth lim)) (0x5B :: byte) @ replicate (Suc (max_depth lim)) 0x5D"
  have m: "map unat ?bs = replicate (Suc (max_depth lim)) 0x5B @ replicate (Suc (max_depth lim)) 0x5D"
    by simp
  have "parse_jsonl lim ?bs =
     (case json_loads lim (map unat ?bs) of
        Inr v \<Rightarrow> Inr [v]
      | Inl JSONDecodeError \<Rightarrow> Inr []
      | Inl e \<Rightarrow> Inl e)"
    by (rule parse_jsonl_one_line)
      (auto simp: list_all_iff is_linebreak_def isspace_def)
  then show ?thesis
    unfolding m json_loads_deep by simp
qed

text \<open>
  The same with a long number: where the interpreter limits the digits of an integer,
  a line of digits longer than the limit (and than 640) makes \<^verbatim>\<open>json.loads\<close> raise
  \<^verbatim>\<open>ValueError\<close>, and \<open>parse_jsonl\<close> with it.
\<close>

lemma json_loads_long_integer:
  assumes "0 < max_digits lim" "640 < n" "max_digits lim < n"
  shows "json_loads lim (replicate n 0x31) = Inl ValueError"
proof -
  from assms(2) obtain k where n: "n = Suc k" by (cases n) simp_all
  have mc: "match_constant (0x31 # replicate k 0x31) = None"
    by (simp add: match_constant_def str_of_simps)
  have mi: "match_int (0x31 # replicate k 0x31) = Some (0x31 # replicate k 0x31, [])"
    by (simp add: match_int_def takeWhile_replicate dropWhile_replicate is_digit_def)
  have mn: "match_number (max_digits lim) (0x31 # replicate k 0x31) = Inl ValueError"
    using assms by (simp add: match_number_def mi match_frac_def match_exp_def n)
  show ?thesis
    by (simp add: json_loads_def n skip_ws_def is_json_ws_def scan_once.simps mc mn)
qed

lemma parse_jsonl_raises_on_long_integer:
  assumes "0 < max_digits lim"
  shows "parse_jsonl lim (replicate (Suc (max 640 (max_digits lim))) 0x31) = Inl ValueError"
proof -
  let ?n = "Suc (max 640 (max_digits lim))"
  let ?bs = "replicate ?n (0x31 :: byte)"
  have m: "map unat ?bs = replicate ?n 0x31" by simp
  have "parse_jsonl lim ?bs =
     (case json_loads lim (map unat ?bs) of
        Inr v \<Rightarrow> Inr [v]
      | Inl JSONDecodeError \<Rightarrow> Inr []
      | Inl e \<Rightarrow> Inl e)"
    by (rule parse_jsonl_one_line)
      (auto simp: list_all_iff is_linebreak_def isspace_def)
  moreover have "json_loads lim (replicate ?n 0x31) = Inl ValueError"
    using assms by (intro json_loads_long_integer) simp_all
  ultimately show ?thesis unfolding m by simp
qed

section \<open>Building evidence\<close>

text \<open>
  C7. For all bytes, file name, notes and clock reading, \<open>build_evidence_package\<close>
  returns a dict (it has no failing branch) whose \<^verbatim>\<open>sha256\<close> and \<^verbatim>\<open>sha512\<close> are the
  digests of exactly these bytes, whose \<^verbatim>\<open>size_bytes\<close> is their length, whose
  \<^verbatim>\<open>schema\<close> is the fixed identifier and whose \<^verbatim>\<open>notes\<close> are the notes given.
\<close>

theorem build_evidence_package_fields:
  "py_get (build_evidence_package clock b name notes) (str_of ''schema'')
     = Inr (PStr (str_of ''edu.unie.ud1.evidence.v1''))
   \<and> py_get (build_evidence_package clock b name notes) (str_of ''filename'') = Inr (PStr name)
   \<and> py_get (build_evidence_package clock b name notes) (str_of ''size_bytes'')
     = Inr (PInt (int (length b)))
   \<and> py_get (build_evidence_package clock b name notes) (str_of ''sha256'')
     = Inr (PStr (sha256_hex b))
   \<and> py_get (build_evidence_package clock b name notes) (str_of ''sha512'')
     = Inr (PStr (sha512_hex b))
   \<and> py_get (build_evidence_package clock b name notes) (str_of ''computed_at_utc'')
     = Inr (PStr (now_iso_utc clock))
   \<and> py_get (build_evidence_package clock b name notes) (str_of ''notes'') = Inr (PStr notes)"
  by (simp add: build_evidence_package_def py_get_def str_of_simps)

section \<open>Verification\<close>

lemma matches_loop_dicts:
  "list_all is_dict es \<Longrightarrow>
   matches_loop es vhash acc = Inr (acc @ filter (sha256_matches vhash) es)"
proof (induction es arbitrary: acc)
  case Nil
  then show ?case by simp
next
  case (Cons e es)
  from Cons.prems obtain kvs where e: "e = PDict kvs"
    by (cases e) (simp_all add: is_dict_simps)
  from Cons.prems have "list_all is_dict es" by simp
  then show ?case
    by (simp add: e Cons.IH py_get_def sha256_matches_def split: option.splits)
qed

lemma matches_loop_non_dict:
  "\<not> list_all is_dict es \<Longrightarrow> matches_loop es vhash acc = Inl AttributeError"
proof (induction es arbitrary: acc)
  case Nil
  then show ?case by simp
next
  case (Cons e es)
  show ?case
  proof (cases e)
    case (PDict kvs)
    with Cons.prems have "\<not> list_all is_dict es" by (simp add: is_dict_simps)
    then show ?thesis by (simp add: PDict Cons.IH py_get_def split: option.splits)
  qed (simp_all add: py_get_def)
qed

lemma verify_universe:
  assumes "ledger s < length (heap s)"
    and "\<And>content. ver_ledger = Some content \<Longrightarrow> \<exists>recs. parse_jsonl lim content = Inr recs"
  shows "fst (verify lim s vbytes ver_ledger) =
     matches_loop (heap s ! ledger s @ external_records lim ver_ledger) (sha256_hex vbytes) []"
proof (cases ver_ledger)
  case None
  with assms(1) show ?thesis
    by (simp add: verify_def py_list_def new_list_def Let_def external_records_def nth_append)
next
  case (Some content)
  with assms(2) obtain recs where p: "parse_jsonl lim content = Inr recs" by blast
  then have "recs = deserialize_spec lim (decode_utf8_ignore content)"
    by (rule parse_jsonl_returns)
  with assms(1) Some p show ?thesis
    by (simp add: verify_def py_list_def new_list_def list_iadd_def Let_def
        external_records_def nth_append)
qed

lemma verify_matches:
  assumes "ledger s < length (heap s)"
    and "\<And>content. ver_ledger = Some content \<Longrightarrow> \<exists>recs. parse_jsonl lim content = Inr recs"
    and "list_all is_dict (heap s ! ledger s @ external_records lim ver_ledger)"
  shows "fst (verify lim s vbytes ver_ledger) =
     Inr (filter (sha256_matches (sha256_hex vbytes))
       (heap s ! ledger s @ external_records lim ver_ledger))"
  using verify_universe [OF assms(1,2)] matches_loop_dicts [OF assms(3)] by simp

lemma verify_raises:
  assumes "ledger s < length (heap s)"
    and "\<And>content. ver_ledger = Some content \<Longrightarrow> \<exists>recs. parse_jsonl lim content = Inr recs"
    and "\<not> list_all is_dict (heap s ! ledger s @ external_records lim ver_ledger)"
  shows "fst (verify lim s vbytes ver_ledger) = Inl AttributeError"
  using verify_universe [OF assms(1,2)] matches_loop_non_dict [OF assms(3)] by simp

text \<open>
  An exception of \<open>parse_jsonl\<close> ends the verification, and the verification ends in no
  exception but those of \<open>parse_jsonl\<close> and the \<^verbatim>\<open>AttributeError\<close> of the comprehension.
\<close>

lemma verify_raises_with_parse_jsonl:
  "parse_jsonl lim content = Inl e \<Longrightarrow> fst (verify lim s vbytes (Some content)) = Inl e"
  by (simp add: verify_def py_list_def new_list_def Let_def)

lemma matches_loop_raises: "matches_loop es vhash acc = Inl e \<Longrightarrow> e = AttributeError"
  by (induction es arbitrary: acc)
    (auto simp: py_get_def split: sum.splits pyval.splits option.splits)

lemma verify_exceptions:
  assumes "fst (verify lim s vbytes ver_ledger) = Inl e"
  shows "e = AttributeError \<or> e = RecursionError \<or> e = ValueError"
proof (cases ver_ledger)
  case None
  with assms show ?thesis
    by (auto simp: verify_def py_list_def new_list_def Let_def dest: matches_loop_raises)
next
  case (Some content)
  show ?thesis
  proof (cases "parse_jsonl lim content")
    case (Inl x)
    with assms Some have "e = x"
      by (simp add: verify_def py_list_def new_list_def Let_def)
    with parse_jsonl_raises [OF Inl] show ?thesis by simp
  next
    case (Inr recs)
    with assms Some show ?thesis
      by (auto simp: verify_def py_list_def new_list_def list_iadd_def Let_def
          dest: matches_loop_raises)
  qed
qed

text \<open>
  C1. The claim: for every candidate, local ledger and external text, the verification
  returns the records of the universe whose \<^verbatim>\<open>sha256\<close> equals the digest. It holds
  whenever the external text is read and every value of the universe is a dict
  (\<open>verify_matches\<close> above). It fails on an external text with a line that is valid
  JSON but no object: for the line \<^verbatim>\<open>5\<close> the comprehension calls \<^verbatim>\<open>.get\<close> on an
  \<^verbatim>\<open>int\<close> and the run ends in \<^verbatim>\<open>AttributeError\<close>, with no list returned, whatever
  the limits of the interpreter.
\<close>

theorem verify_raises_on_number_line:
  "fst (verify lim init_session [] (Some (map of_nat (str_of ''5'')))) = Inl AttributeError"
  by (simp add: verify_defs text_defs json_defs)

text \<open>
  C2. The claim: the verification never fails, whatever the external text. A record
  without a \<^verbatim>\<open>sha256\<close> field is indeed no match and no error (the line \<^verbatim>\<open>{}\<close>, where
  the interpreter lets the scanner open the object; where it does not, this line ends
  the run as well), but the line \<^verbatim>\<open>null\<close> ends the run in \<^verbatim>\<open>AttributeError\<close> on
  every interpreter.
\<close>

theorem verify_raises_on_null_line:
  "fst (verify lim init_session [] (Some (map of_nat (str_of ''{}''))))
     = (if max_depth lim = 0 then Inl RecursionError else Inr [])
   \<and> fst (verify lim init_session [] (Some (map of_nat (str_of ''null'')))) = Inl AttributeError"
  by (simp add: verify_defs text_defs json_defs)

text \<open>
  C8. The verification changes no list that existed before it ran: the session still
  holds the same ledger address, every list object of the store is as it was (the
  session ledger among them: the universe is built in a copy), and the list of records
  read from the external text holds exactly the records read. Nothing is appended to
  the session ledger. This is so too when reading the external text raises: then the
  run ends with that exception, and the copy is the only list it has made.
\<close>

theorem verify_frame:
  assumes "ledger s < length (heap s)"
  shows "ledger (snd (verify lim s vbytes ver_ledger)) = ledger s
     \<and> take (length (heap s)) (heap (snd (verify lim s vbytes ver_ledger))) = heap s
     \<and> heap (snd (verify lim s vbytes ver_ledger)) ! ledger s = heap s ! ledger s
     \<and> (case ver_ledger of
          None \<Rightarrow> True
        | Some content \<Rightarrow>
            (case parse_jsonl lim content of
               Inr recs \<Rightarrow>
                 heap (snd (verify lim s vbytes ver_ledger)) ! Suc (length (heap s))
                   = deserialize_spec lim (decode_utf8_ignore content)
             | Inl e \<Rightarrow>
                 fst (verify lim s vbytes ver_ledger) = Inl e
                 \<and> length (heap (snd (verify lim s vbytes ver_ledger))) = Suc (length (heap s))))"
proof (cases ver_ledger)
  case None
  with assms show ?thesis
    by (simp add: verify_def py_list_def new_list_def Let_def nth_append)
next
  case (Some content)
  show ?thesis
  proof (cases "parse_jsonl lim content")
    case (Inl e)
    with assms Some show ?thesis
      by (simp add: verify_def py_list_def new_list_def Let_def nth_append)
  next
    case (Inr recs)
    then have "recs = deserialize_spec lim (decode_utf8_ignore content)"
      by (rule parse_jsonl_returns)
    with assms Some Inr show ?thesis
      by (simp add: verify_def py_list_def new_list_def list_iadd_def Let_def nth_append)
  qed
qed

theorem verify_frame_witness:
  "ledger example_session < length (heap example_session)
   \<and> ledger (snd (verify example_limits example_session [0x61] (Some [0x35])))
       = ledger example_session
   \<and> take (length (heap example_session))
         (heap (snd (verify example_limits example_session [0x61] (Some [0x35]))))
       = heap example_session
   \<and> heap (snd (verify example_limits example_session [0x61] (Some [0x35])))
         ! ledger example_session
       = heap example_session ! ledger example_session
   \<and> parse_jsonl example_limits [0x35] = Inr [PInt 5]
   \<and> heap (snd (verify example_limits example_session [0x61] (Some [0x35])))
         ! Suc (length (heap example_session))
       = deserialize_spec example_limits (decode_utf8_ignore [0x35])"
proof -
  have h: "ledger example_session < length (heap example_session)"
    by (simp add: example_session_def crear_evidencia_def list_append_def init_session_def)
  have p: "parse_jsonl example_limits [0x35] = Inr [PInt 5]"
    by (simp add: parse_jsonl_def text_defs json_defs)
  show ?thesis
    using h p verify_frame [OF h, of example_limits "[0x61]" "Some [0x35]"] by simp
qed

section \<open>UTF-8\<close>

text \<open>
  Two facts about the codec. What \<open>decode_utf8_ignore\<close> returns encodes strictly, and to
  a subsequence of the bytes given: the text holds nothing but characters that stand
  well-formed in the input, in order, and every other byte is gone. And a text of scalar
  values that is encoded decodes to itself.
\<close>

lemma byte_le_iff: "(a::byte) \<le> b \<longleftrightarrow> unat a \<le> unat b"
  by (rule word_le_nat_alt)

lemma byte_less_iff: "(a::byte) < b \<longleftrightarrow> unat a < unat b"
  by (rule word_less_nat_alt)

lemma byte_eq_iff: "(a::byte) = b \<longleftrightarrow> unat a = unat b"
  by (simp add: word_unat_eq_iff)

lemma unat_byte_bound: "unat (b::byte) < 256"
  using unsigned_less [of b] by simp

lemma cont_iff: "cont b \<longleftrightarrow> 128 \<le> unat b \<and> unat b \<le> 191"
  by (simp add: cont_def byte_le_iff)

lemma base64_digits:
  assumes "c < 64"
  shows "(m * 64 + c) div 64 = m" and "(m * 64 + c) mod 64 = (c::nat)"
  using assms by simp_all

lemma enc2:
  assumes "2 \<le> a" "a \<le> 31" "b < 64"
  shows "encode_char (a * 64 + b) = Inr [of_nat (192 + a), of_nat (128 + b)]"
proof -
  define cp where "cp = a * 64 + b"
  have c: "128 \<le> cp" "cp < 2048" using assms by (simp_all add: cp_def)
  have d: "cp div 64 = a" "cp mod 64 = b"
    unfolding cp_def using assms(3) by (rule base64_digits)+
  show ?thesis unfolding cp_def [symmetric] using c d by (simp add: encode_char_def)
qed

lemma enc3:
  assumes "a \<le> 15" "b < 64" "c < 64" "a = 0 \<longrightarrow> 32 \<le> b" "a = 13 \<longrightarrow> b < 32"
  shows "encode_char ((a * 64 + b) * 64 + c)
     = Inr [of_nat (224 + a), of_nat (128 + b), of_nat (128 + c)]"
proof -
  define m where "m = a * 64 + b"
  define cp where "cp = m * 64 + c"
  have lo: "2048 \<le> cp" using assms by (cases "a = 0") (simp_all add: cp_def m_def)
  have hi: "cp < 65536" using assms by (simp add: cp_def m_def)
  have ns: "\<not> (55296 \<le> cp \<and> cp \<le> 57343)"
  proof (cases "a = 13")
    case True
    with assms show ?thesis by (simp add: cp_def m_def)
  next
    case False
    then have "a \<le> 12 \<or> 14 \<le> a" by arith
    with assms show ?thesis by (auto simp: cp_def m_def)
  qed
  have d0: "cp div 64 = m" "cp mod 64 = c"
    unfolding cp_def using assms(3) by (rule base64_digits)+
  have d1: "m div 64 = a" "m mod 64 = b"
    unfolding m_def using assms(2) by (rule base64_digits)+
  have "cp div 4096 = cp div 64 div 64"
    using div_mult2_eq [of cp 64 64] by simp
  then have d2: "cp div 4096 = a" by (simp add: d0 d1)
  show ?thesis
    unfolding m_def [symmetric] cp_def [symmetric]
    using lo hi ns d0 d1 d2 by (simp add: encode_char_def)
qed

lemma enc4:
  assumes "a \<le> 4" "b < 64" "c < 64" "d < 64" "a = 0 \<longrightarrow> 16 \<le> b" "a = 4 \<longrightarrow> b < 16"
  shows "encode_char (((a * 64 + b) * 64 + c) * 64 + d)
     = Inr [of_nat (240 + a), of_nat (128 + b), of_nat (128 + c), of_nat (128 + d)]"
proof -
  define m where "m = a * 64 + b"
  define n where "n = m * 64 + c"
  define cp where "cp = n * 64 + d"
  have lo: "65536 \<le> cp" using assms by (cases "a = 0") (simp_all add: cp_def n_def m_def)
  have hi: "cp < 1114112" using assms by (cases "a = 4") (simp_all add: cp_def n_def m_def)
  have d0: "cp div 64 = n" "cp mod 64 = d"
    unfolding cp_def using assms(4) by (rule base64_digits)+
  have d1: "n div 64 = m" "n mod 64 = c"
    unfolding n_def using assms(3) by (rule base64_digits)+
  have d2: "m div 64 = a" "m mod 64 = b"
    unfolding m_def using assms(2) by (rule base64_digits)+
  have "cp div 4096 = cp div 64 div 64"
    using div_mult2_eq [of cp 64 64] by simp
  then have d3: "cp div 4096 = m" by (simp add: d0 d1)
  have "cp div 262144 = cp div 4096 div 64"
    using div_mult2_eq [of cp 4096 64] by simp
  then have d4: "cp div 262144 = a" by (simp add: d3 d2)
  show ?thesis
    unfolding m_def [symmetric] n_def [symmetric] cp_def [symmetric]
    using lo hi d0 d1 d2 d3 d4 by (simp add: encode_char_def)
qed

text \<open>What \<open>utf8_seq\<close> accepts is what \<open>encode_char\<close> writes for the code point it gives.\<close>

lemma utf8_seq_encode:
  assumes "utf8_seq b0 bs = Some (cp, n)"
  shows "encode_char cp = Inr (b0 # take n bs)"
proof -
  define x0 where "x0 = unat b0"
  have b0: "b0 = of_nat x0" by (simp add: x0_def)
  consider (two) "194 \<le> x0" "x0 \<le> 223" | (three) "224 \<le> x0" "x0 \<le> 239"
    | (four) "240 \<le> x0" "x0 \<le> 244"
    using assms by (auto simp: utf8_seq_def byte_le_iff x0_def split: if_splits)
  then show ?thesis
  proof cases
    case two
    with assms obtain b1 r where bs: "bs = b1 # r" and c1: "cont b1"
      and cp: "cp = (x0 - 192) * 64 + (unat b1 - 128)" and n: "n = 1"
      by (auto simp: utf8_seq_def byte_le_iff x0_def split: if_splits list.splits)
    from c1 have u1: "128 \<le> unat b1" "unat b1 \<le> 191" by (simp_all add: cont_iff)
    have "encode_char cp = Inr [of_nat (192 + (x0 - 192)), of_nat (128 + (unat b1 - 128))]"
      unfolding cp using two u1 by (intro enc2) simp_all
    with two u1 show ?thesis by (simp add: b0 bs n)
  next
    case three
    with assms obtain b1 b2 r where bs: "bs = b1 # b2 # r" and c2: "cont b2"
      and lo1: "(if x0 = 224 then 160 else 128) \<le> unat b1"
      and hi1: "unat b1 \<le> (if x0 = 237 then 159 else 191)"
      and cp: "cp = ((x0 - 224) * 64 + (unat b1 - 128)) * 64 + (unat b2 - 128)" and n: "n = 2"
      by (auto simp: utf8_seq_def byte_le_iff byte_eq_iff x0_def split: if_splits list.splits)
    from c2 have u2: "128 \<le> unat b2" "unat b2 \<le> 191" by (simp_all add: cont_iff)
    from lo1 hi1 have u1: "128 \<le> unat b1" "unat b1 \<le> 191" by (auto split: if_splits)
    have "encode_char cp = Inr [of_nat (224 + (x0 - 224)), of_nat (128 + (unat b1 - 128)),
        of_nat (128 + (unat b2 - 128))]"
      unfolding cp using three u1 u2 lo1 hi1 by (intro enc3) (auto split: if_splits)
    with three u1 u2 show ?thesis by (simp add: b0 bs n)
  next
    case four
    with assms obtain b1 b2 b3 r where bs: "bs = b1 # b2 # b3 # r" and c2: "cont b2"
      and c3: "cont b3"
      and lo1: "(if x0 = 240 then 144 else 128) \<le> unat b1"
      and hi1: "unat b1 \<le> (if x0 = 244 then 143 else 191)"
      and cp: "cp = (((x0 - 240) * 64 + (unat b1 - 128)) * 64 + (unat b2 - 128)) * 64
          + (unat b3 - 128)" and n: "n = 3"
      by (auto simp: utf8_seq_def byte_le_iff byte_eq_iff x0_def split: if_splits list.splits)
    from c2 have u2: "128 \<le> unat b2" "unat b2 \<le> 191" by (simp_all add: cont_iff)
    from c3 have u3: "128 \<le> unat b3" "unat b3 \<le> 191" by (simp_all add: cont_iff)
    from lo1 hi1 have u1: "128 \<le> unat b1" "unat b1 \<le> 191" by (auto split: if_splits)
    have "encode_char cp = Inr [of_nat (240 + (x0 - 240)), of_nat (128 + (unat b1 - 128)),
        of_nat (128 + (unat b2 - 128)), of_nat (128 + (unat b3 - 128))]"
      unfolding cp using four u1 u2 u3 lo1 hi1 by (intro enc4) (auto split: if_splits)
    with four u1 u2 u3 show ?thesis by (simp add: b0 bs n)
  qed
qed

lemma encode_ascii_byte: "b0 < 0x80 \<Longrightarrow> encode_char (unat (b0::byte)) = Inr [b0]"
  by (simp add: encode_char_def byte_less_iff)

lemma encode_utf8_append:
  "encode_utf8 xs = Inr bs \<Longrightarrow> encode_utf8 ys = Inr cs \<Longrightarrow> encode_utf8 (xs @ ys) = Inr (bs @ cs)"
  by (induction xs arbitrary: bs) (auto split: sum.splits)

lemma decode_reencodes:
  "\<exists>bs. encode_utf8 (decode_utf8_ignore content) = Inr bs \<and> subseq bs content"
proof (induction content rule: decode_utf8_ignore.induct)
  case 1
  then show ?case by simp
next
  case (2 b0 rest)
  show ?case
  proof (cases "b0 < 0x80")
    case True
    with "2.IH"(1) obtain bs where
      bs: "encode_utf8 (decode_utf8_ignore rest) = Inr bs" "subseq bs rest" by blast
    with True show ?thesis by (simp add: encode_ascii_byte)
  next
    case False
    show ?thesis
    proof (cases "utf8_seq b0 rest")
      case None
      with "2.IH"(2) False obtain bs where
        bs: "encode_utf8 (decode_utf8_ignore rest) = Inr bs" "subseq bs rest" by blast
      with None False show ?thesis by (auto intro: subseq_Cons')
    next
      case (Some p)
      obtain cp n where p: "p = (cp, n)" by (cases p)
      with "2.IH"(3) [OF False Some] obtain bs where
        bs: "encode_utf8 (decode_utf8_ignore (drop n rest)) = Inr bs" "subseq bs (drop n rest)"
        by auto
      have enc: "encode_char cp = Inr (b0 # take n rest)"
        using Some p by (simp add: utf8_seq_encode)
      have "subseq (take n rest @ bs) (take n rest @ drop n rest)"
        using bs(2) by (intro list_emb_append_mono) simp_all
      then have "subseq (b0 # take n rest @ bs) (b0 # rest)" by simp
      with Some p False enc bs(1) show ?thesis by simp
    qed
  qed
qed

text \<open>
  C9. \<open>parse_jsonl\<close> first decodes its bytes with \<open>decode_utf8_ignore\<close>, which returns
  for every input (it has no raising branch) a text that encodes to a subsequence of the
  input: bytes that are not well-formed UTF-8 do not appear in the text that is split
  into lines. For instance the bytes \<^verbatim>\<open>35 FF C3 0A E2 82\<close> give the text \<^verbatim>\<open>"5\n"\<close>.
\<close>

theorem decode_ignore_drops_invalid_bytes:
  "(\<exists>bs. encode_utf8 (decode_utf8_ignore content) = Inr bs \<and> subseq bs content)
   \<and> parse_jsonl lim content
       = parse_jsonl_loop lim (splitlines (decode_utf8_ignore content)) []
   \<and> decode_utf8_ignore [0x35, 0xFF, 0xC3, 0x0A, 0xE2, 0x82] = [0x35, 0x0A]"
  using decode_reencodes [of content]
  by (simp add: parse_jsonl_def utf8_seq_def cont_def)

lemma unat_of_nat_byte: "x < 256 \<Longrightarrow> unat (of_nat x :: byte) = x"
  by (simp add: unat_of_nat)

lemma dec1: "c < 128 \<Longrightarrow> decode_utf8_ignore (of_nat c # rest) = c # decode_utf8_ignore rest"
  by (simp add: byte_less_iff unat_of_nat_byte)

lemma dec2:
  assumes "194 \<le> y0" "y0 \<le> 223" "128 \<le> y1" "y1 \<le> 191"
  shows "decode_utf8_ignore (of_nat y0 # of_nat y1 # rest)
     = ((y0 - 192) * 64 + (y1 - 128)) # decode_utf8_ignore rest"
  using assms
  by (simp add: utf8_seq_def cont_iff byte_le_iff byte_less_iff unat_of_nat_byte)

lemma dec3:
  assumes "224 \<le> y0" "y0 \<le> 239" "128 \<le> y1" "y1 \<le> 191" "128 \<le> y2" "y2 \<le> 191"
    "y0 = 224 \<longrightarrow> 160 \<le> y1" "y0 = 237 \<longrightarrow> y1 \<le> 159"
  shows "decode_utf8_ignore (of_nat y0 # of_nat y1 # of_nat y2 # rest)
     = (((y0 - 224) * 64 + (y1 - 128)) * 64 + (y2 - 128)) # decode_utf8_ignore rest"
  using assms
  by (simp add: utf8_seq_def cont_iff byte_le_iff byte_less_iff byte_eq_iff unat_of_nat_byte)

lemma dec4:
  assumes "240 \<le> y0" "y0 \<le> 244" "128 \<le> y1" "y1 \<le> 191" "128 \<le> y2" "y2 \<le> 191"
    "128 \<le> y3" "y3 \<le> 191" "y0 = 240 \<longrightarrow> 144 \<le> y1" "y0 = 244 \<longrightarrow> y1 \<le> 143"
  shows "decode_utf8_ignore (of_nat y0 # of_nat y1 # of_nat y2 # of_nat y3 # rest)
     = ((((y0 - 240) * 64 + (y1 - 128)) * 64 + (y2 - 128)) * 64 + (y3 - 128))
       # decode_utf8_ignore rest"
  using assms
  by (simp add: utf8_seq_def cont_iff byte_le_iff byte_less_iff byte_eq_iff unat_of_nat_byte)

lemma encode_decode_char:
  assumes "valid_cp c"
  shows "\<exists>bs. encode_char c = Inr bs
     \<and> (\<forall>rest. decode_utf8_ignore (bs @ rest) = c # decode_utf8_ignore rest)"
proof -
  consider (one) "c < 128" | (two) "128 \<le> c" "c < 2048" | (three) "2048 \<le> c" "c < 65536"
    | (four) "65536 \<le> c"
    by linarith
  then show ?thesis
  proof cases
    case one
    then show ?thesis by (simp add: encode_char_def dec1 del: decode_utf8_ignore.simps)
  next
    case two
    define a b where "a = c div 64" and "b = c mod 64"
    have c: "c = a * 64 + b" by (simp add: a_def b_def)
    have ab: "2 \<le> a" "a \<le> 31" "b < 64" using two by (simp_all add: a_def b_def) 
    have "decode_utf8_ignore (of_nat (192 + a) # of_nat (128 + b) # rest)
        = (a * 64 + b) # decode_utf8_ignore rest" for rest
      using dec2 [of "192 + a" "128 + b" rest] ab by (simp del: decode_utf8_ignore.simps)
    then show ?thesis unfolding c using enc2 [OF ab] by (simp del: decode_utf8_ignore.simps)
  next
    case three
    define m where "m = c div 64"
    define a b d where "a = m div 64" and "b = m mod 64" and "d = c mod 64"
    have m: "m = a * 64 + b" by (simp add: a_def b_def)
    have c: "c = (a * 64 + b) * 64 + d" unfolding m [symmetric] by (simp add: m_def d_def)
    have bd: "b < 64" "d < 64" by (simp_all add: b_def d_def)
    have a: "a \<le> 15" using three bd unfolding c by simp
    have a0: "a = 0 \<longrightarrow> 32 \<le> b" using three bd unfolding c by auto
    have a13: "a = 13 \<longrightarrow> b < 32" using assms bd unfolding c valid_cp_def by auto
    have "decode_utf8_ignore (of_nat (224 + a) # of_nat (128 + b) # of_nat (128 + d) # rest)
        = ((a * 64 + b) * 64 + d) # decode_utf8_ignore rest" for rest
      using dec3 [of "224 + a" "128 + b" "128 + d" rest] a bd a0 a13
      by (auto simp del: decode_utf8_ignore.simps)
    then show ?thesis unfolding c
      using enc3 [OF a bd a0 a13] by (simp del: decode_utf8_ignore.simps)
  next
    case four
    define n where "n = c div 64"
    define m where "m = n div 64"
    define a b e d where "a = m div 64" and "b = m mod 64" and "e = n mod 64" and "d = c mod 64"
    have m: "m = a * 64 + b" by (simp add: a_def b_def)
    have n: "n = m * 64 + e" by (simp add: m_def e_def)
    have c: "c = ((a * 64 + b) * 64 + e) * 64 + d"
      unfolding m [symmetric] n [symmetric] by (simp add: n_def d_def)
    have bd: "b < 64" "e < 64" "d < 64" by (simp_all add: b_def d_def e_def)
    have c_hi: "c < 1114112" using assms by (simp add: valid_cp_def)
    have a: "a \<le> 4" using c_hi bd unfolding c by simp
    have a0: "a = 0 \<longrightarrow> 16 \<le> b" using four bd unfolding c by auto
    have a4: "a = 4 \<longrightarrow> b < 16" using c_hi bd unfolding c by auto
    have "decode_utf8_ignore
          (of_nat (240 + a) # of_nat (128 + b) # of_nat (128 + e) # of_nat (128 + d) # rest)
        = (((a * 64 + b) * 64 + e) * 64 + d) # decode_utf8_ignore rest" for rest
      using dec4 [of "240 + a" "128 + b" "128 + e" "128 + d" rest] a bd a0 a4
      by (auto simp del: decode_utf8_ignore.simps)
    then show ?thesis unfolding c
      using enc4 [OF a bd a0 a4] by (simp del: decode_utf8_ignore.simps)
  qed
qed

lemma encode_decode:
  "list_all valid_cp s \<Longrightarrow>
   \<exists>bs. encode_utf8 s = Inr bs \<and> decode_utf8_ignore bs = s"
proof (induction s)
  case Nil
  then show ?case by simp
next
  case (Cons c s)
  then obtain bs where bs: "encode_utf8 s = Inr bs" "decode_utf8_ignore bs = s" by auto
  from Cons.prems have "valid_cp c" by simp
  then obtain cs where cs: "encode_char c = Inr cs"
    "\<And>rest. decode_utf8_ignore (cs @ rest) = c # decode_utf8_ignore rest"
    using encode_decode_char by blast
  with bs show ?case by simp
qed

section \<open>Writing a ledger and reading it back\<close>

lemma list_all_mono: "list_all P xs \<Longrightarrow> (\<And>x. P x \<Longrightarrow> Q x) \<Longrightarrow> list_all Q xs"
  by (induction xs) simp_all

lemma safe_digit: "d < 10 \<Longrightarrow> is_safe (48 + d)"
  by (simp add: is_safe_def)

lemma safe_dec_digits: "list_all is_safe (dec_digits n)"
proof (induction n rule: dec_digits.induct)
  case (1 n)
  show ?case
  proof (cases "n < 10")
    case True
    then show ?thesis by (subst dec_digits.simps) (simp add: safe_digit)
  next
    case False
    with "1.IH" have "list_all is_safe (dec_digits (n div 10))" by simp
    moreover have "is_safe (48 + n mod 10)" by (rule safe_digit) simp
    ultimately show ?thesis using False
      by (subst dec_digits.simps) simp
  qed
qed

lemma safe_replicate: "is_safe c \<Longrightarrow> list_all is_safe (replicate k c)"
  by (induction k) simp_all

lemma safe_zero_pad: "list_all is_safe (zero_pad w n)"
  by (simp add: zero_pad_def safe_dec_digits safe_replicate is_safe_def)

lemma safe_now_iso_utc: "list_all is_safe (now_iso_utc t)"
  by (simp add: now_iso_utc_def safe_zero_pad str_of_simps is_safe_def)

lemma safe_hex: "list_all is_lower_hex xs \<Longrightarrow> list_all is_safe xs"
  by (erule list_all_mono) (auto simp: is_lower_hex_def is_safe_def)

lemma safe_sha256_hex: "list_all is_safe (sha256_hex b)"
  by (simp add: sha256_hex_def hexdigest_lower safe_hex)

lemma safe_sha512_hex: "list_all is_safe (sha512_hex b)"
  by (simp add: sha512_hex_def hexdigest_lower safe_hex)

lemmas safe_segments = safe_sha256_hex safe_sha512_hex safe_now_iso_utc safe_dec_digits

lemma escape_safe: "list_all is_safe xs \<Longrightarrow> concat (map escape_char xs) = xs"
  by (induction xs) (auto simp: is_safe_def escape_char_def)

lemma encode_basestring_safe:
  "list_all is_safe xs \<Longrightarrow> encode_basestring xs = [0x22] @ xs @ [0x22]"
  by (simp add: encode_basestring_def escape_safe)

lemma splitlines_from_safe:
  "list_all is_safe xs \<Longrightarrow> splitlines_from cur (xs @ rest) = splitlines_from (cur @ xs) rest"
  by (induction xs arbitrary: cur) (auto simp: is_safe_def is_linebreak_def)

lemma valid_safe: "list_all is_safe xs \<Longrightarrow> list_all valid_cp xs"
  by (erule list_all_mono) (simp add: is_safe_def valid_cp_def)

text \<open>The line that \<open>json_dumps\<close> writes for an evidence record.\<close>

lemma dumps_evidence:
  "json_dumps (build_evidence_package clock b name notes) =
     str_of ''{\"schema\": \"edu.unie.ud1.evidence.v1\", \"filename\": ''
     @ encode_basestring name
     @ str_of '', \"size_bytes\": '' @ dec_digits (length b)
     @ str_of '', \"sha256\": \"'' @ sha256_hex b
     @ str_of ''\", \"sha512\": \"'' @ sha512_hex b
     @ str_of ''\", \"computed_at_utc\": \"'' @ now_iso_utc clock
     @ str_of ''\", \"notes\": '' @ encode_basestring notes @ str_of ''}''"
  by (simp add: build_evidence_package_def str_int_def str_of_simps
      encode_basestring_safe safe_sha256_hex safe_sha512_hex safe_now_iso_utc)
    (simp add: encode_basestring_def escape_char_def)

lemma escape_char_verbatim: "32 \<le> c \<Longrightarrow> c \<noteq> 0x22 \<Longrightarrow> c \<noteq> 0x5C \<Longrightarrow> escape_char c = [c]"
  by (simp add: escape_char_def)

lemma escape_char_no_newline: "0x0A \<notin> set (escape_char c)"
  by (simp add: escape_char_def hex_digit_def)

lemma encode_basestring_no_newline: "0x0A \<notin> set (encode_basestring s)"
  by (induction s) (simp_all add: encode_basestring_def escape_char_no_newline)

lemma safe_no_newline: "list_all is_safe xs \<Longrightarrow> 0x0A \<notin> set xs"
  by (induction xs) (auto simp: is_safe_def)

lemma evidence_line_no_newline:
  "0x0A \<notin> set (json_dumps (build_evidence_package clock b name notes))"
  by (simp add: dumps_evidence str_of_simps encode_basestring_no_newline safe_no_newline
      safe_segments)

lemma ledger_to_jsonl_newlines:
  "length (filter (\<lambda>c. c = 0x0A)
       (ledger_to_jsonl (map (\<lambda>(clock, b, name, nts). build_evidence_package clock b name nts) args)))
     = length args"
proof (induction args)
  case Nil
  then show ?case by (simp add: ledger_to_jsonl_def)
next
  case (Cons a args)
  obtain clock b name nts where a: "a = (clock, b, name, nts)" by (cases a)
  have "filter (\<lambda>c. c = 0x0A) (json_dumps (build_evidence_package clock b name nts)) = []"
    using evidence_line_no_newline [of clock b name nts] by (auto simp: filter_empty_conv)
  with Cons show ?case by (simp add: ledger_to_jsonl_def a)
qed

lemma valid_cp_line_separator: "valid_cp 0x2028"
  by (simp add: valid_cp_def)

text \<open>
  A record whose file name holds U+2028 is written as one line and read as several. The
  first of them opens the object, so that an interpreter with no room for a container
  raises there; any other finds that neither piece parses.
\<close>

lemma export_then_import_loses_record:
  "\<exists>bs. encode_utf8 (ledger_to_jsonl
           [build_evidence_package clock b (str_of ''a'' @ [0x2028] @ str_of ''b'') []]) = Inr bs
     \<and> parse_jsonl lim bs = (if max_depth lim = 0 then Inl RecursionError else Inr [])"
proof -
  let ?T = "ledger_to_jsonl
     [build_evidence_package clock b (str_of ''a'' @ [0x2028] @ str_of ''b'') []]"
  have "list_all valid_cp ?T"
    by (simp add: ledger_to_jsonl_def dumps_evidence encode_basestring_def escape_char_def
        str_of_simps valid_safe safe_segments valid_cp_def)
  then obtain bs where bs: "encode_utf8 ?T = Inr bs" "decode_utf8_ignore bs = ?T"
    using encode_decode by blast
  have "parse_jsonl_loop lim (splitlines ?T) []
      = (if max_depth lim = 0 then Inl RecursionError else Inr [])"
    by (simp add: ledger_to_jsonl_def dumps_evidence encode_basestring_def escape_char_def
        text_defs json_defs splitlines_from_safe safe_segments)
  with bs show ?thesis by (simp add: parse_jsonl_def)
qed

lemma export_then_import_reads_fragment:
  "\<exists>bs. encode_utf8 (ledger_to_jsonl
           [build_evidence_package clock b (str_of ''a'' @ [0x2028] @ str_of ''5'' @ [0x2028] @ str_of ''b'') []]) = Inr bs
     \<and> parse_jsonl lim bs = (if max_depth lim = 0 then Inl RecursionError else Inr [PInt 5])"
proof -
  let ?T = "ledger_to_jsonl
     [build_evidence_package clock b (str_of ''a'' @ [0x2028] @ str_of ''5'' @ [0x2028] @ str_of ''b'') []]"
  have "list_all valid_cp ?T"
    by (simp add: ledger_to_jsonl_def dumps_evidence encode_basestring_def escape_char_def
        str_of_simps valid_safe safe_segments valid_cp_def)
  then obtain bs where bs: "encode_utf8 ?T = Inr bs" "decode_utf8_ignore bs = ?T"
    using encode_decode by blast
  have "parse_jsonl_loop lim (splitlines ?T) []
      = (if max_depth lim = 0 then Inl RecursionError else Inr [PInt 5])"
    by (simp add: ledger_to_jsonl_def dumps_evidence encode_basestring_def escape_char_def
        text_defs json_defs splitlines_from_safe safe_segments)
  with bs show ?thesis by (simp add: parse_jsonl_def)
qed

subsection \<open>What does come back\<close>

text \<open>
  \<open>scanstring\<close> undoes the escaping of \<^verbatim>\<open>json.dumps\<close> for every string, the number
  matcher reads back a decimal rendering of at most 640 digits (a size of less than
  \<open>10 ^ 640\<close> bytes: \<open>length_dec_digits\<close>), and so \<open>json_loads\<close>, when it may open
  one container, returns the record whose line it is given. A record whose file name
  and notes hold none of U+0085, U+2028 and U+2029 (and no surrogate) is exported and
  read back as it was.
\<close>

lemma hex_val_hex_digit: "d < 16 \<Longrightarrow> hex_val (hex_digit d) = Some d"
  by (auto simp: hex_val_def hex_digit_def)

lemma scanstring_escape_char:
  "scanstring (escape_char c @ rest) acc = scanstring rest (acc @ [c])"
proof -
  consider (quote) "c = 0x22" | (bs) "c = 0x5C" | (n) "c = 0x0A" | (r) "c = 0x0D" | (t) "c = 0x09"
    | (b) "c = 0x08" | (f) "c = 0x0C"
    | (ctl) "c < 0x20" "c \<noteq> 0x0A" "c \<noteq> 0x0D" "c \<noteq> 0x09" "c \<noteq> 0x08" "c \<noteq> 0x0C"
    | (plain) "0x20 \<le> c" "c \<noteq> 0x22" "c \<noteq> 0x5C"
    by linarith
  then show ?thesis
  proof cases
    case ctl
    have d: "c div 16 < 16" "c mod 16 < 16" using ctl(1) by simp_all
    have v: "hex_val (hex_digit (c div 16)) = Some (c div 16)"
      "hex_val (hex_digit (c mod 16)) = Some (c mod 16)"
      using d by (simp_all add: hex_val_hex_digit)
    have z: "hex_val 0x30 = Some 0" by (simp add: hex_val_def)
    have e: "escape_char c = [0x5C, 0x75, 0x30, 0x30, hex_digit (c div 16), hex_digit (c mod 16)]"
      using ctl by (simp add: escape_char_def)
    have hs: "\<not> is_high_surrogate c" using ctl(1) by (simp add: is_high_surrogate_def)
    have c: "c div 16 * 16 + c mod 16 = c" by simp
    show ?thesis unfolding e using v z hs c by simp
  qed (simp_all add: escape_char_def unescape_def)
qed

lemma scanstring_escaped:
  "scanstring (concat (map escape_char s) @ rest) acc = scanstring rest (acc @ s)"
  by (induction s arbitrary: acc) (simp_all add: scanstring_escape_char del: scanstring.simps)

lemma scanstring_safe:
  "list_all is_safe xs \<Longrightarrow> scanstring (xs @ rest) acc = scanstring rest (acc @ xs)"
  using scanstring_escaped [of xs rest acc] by (simp add: escape_safe)

lemma dec_digits_head:
  "\<exists>d ds. dec_digits n = d # ds \<and> is_digit d \<and> list_all is_digit ds \<and> (d = 0x30 \<longrightarrow> n = 0 \<and> ds = [])"
proof (induction n rule: dec_digits.induct)
  case (1 n)
  show ?case
  proof (cases "n < 10")
    case True
    then show ?thesis by (subst dec_digits.simps) (simp add: is_digit_def)
  next
    case False
    with "1.IH" obtain d ds where
      IH: "dec_digits (n div 10) = d # ds" "is_digit d" "list_all is_digit ds"
        "d = 0x30 \<longrightarrow> n div 10 = 0 \<and> ds = []"
      by auto
    from False have "n div 10 \<noteq> 0" by simp
    with IH(4) have d: "d \<noteq> 0x30" by blast
    have "n mod 10 < 10" by simp
    then have last: "is_digit (48 + n mod 10)" unfolding is_digit_def by linarith
    have "dec_digits n = d # (ds @ [48 + n mod 10])"
      using False IH(1) by (subst dec_digits.simps) simp
    with IH(2,3) d last show ?thesis by simp
  qed
qed

lemma int_of_digits_snoc: "int_of_digits (xs @ [d]) = 10 * int_of_digits xs + int (d - 48)"
  by (simp add: int_of_digits_def)

lemma int_of_dec_digits: "int_of_digits (dec_digits n) = int n"
proof (induction n rule: dec_digits.induct)
  case (1 n)
  show ?case
  proof (cases "n < 10")
    case True
    then show ?thesis by (subst dec_digits.simps) (simp add: int_of_digits_def)
  next
    case False
    with "1.IH" have "int_of_digits (dec_digits (n div 10)) = int (n div 10)" by simp
    with False show ?thesis
      by (subst dec_digits.simps) (simp add: int_of_digits_snoc zdiv_int zmod_int)
  qed
qed

lemma takeWhile_digits:
  "list_all is_digit ds \<Longrightarrow> \<not> is_digit c \<Longrightarrow> takeWhile is_digit (ds @ c # r) = ds"
  by (induction ds) simp_all

lemma dropWhile_digits:
  "list_all is_digit ds \<Longrightarrow> \<not> is_digit c \<Longrightarrow> dropWhile is_digit (ds @ c # r) = c # r"
  by (induction ds) simp_all

lemma length_dec_digits: "0 < k \<Longrightarrow> n < 10 ^ k \<Longrightarrow> length (dec_digits n) \<le> k"
proof (induction k arbitrary: n)
  case 0
  then show ?case by simp
next
  case (Suc k)
  show ?case
  proof (cases "n < 10")
    case True
    then show ?thesis by (subst dec_digits.simps) simp
  next
    case False
    with Suc.prems have k: "0 < k" by (cases k) simp_all
    from Suc.prems have "n div 10 < 10 ^ k" by (simp add: less_mult_imp_div_less)
    from Suc.IH [OF k this] False show ?thesis by (subst dec_digits.simps) simp
  qed
qed

lemma scan_once_number:
  assumes "c = 0x2C" and "length (dec_digits n) \<le> 640"
  shows "scan_once md d (dec_digits n @ c # r) = Inr (PInt (int n), c # r)"
proof -
  obtain x ds where dd: "dec_digits n = x # ds" "is_digit x" "list_all is_digit ds"
    "x = 0x30 \<longrightarrow> n = 0 \<and> ds = []"
    using dec_digits_head by blast
  have nd: "\<not> is_digit c" using assms by (simp add: is_digit_def)
  have x: "48 \<le> x" "x \<le> 57" using dd(2) by (simp_all add: is_digit_def)
  have mc: "match_constant (x # ds @ c # r) = None"
    using x by (simp add: match_constant_def str_of_simps)
  have mi: "match_int (x # ds @ c # r) = Some (x # ds, c # r)"
  proof (cases "x = 0x30")
    case True
    with dd(4) show ?thesis by (simp add: match_int_def)
  next
    case False
    with x have "0x31 \<le> x \<and> x \<le> 0x39" by simp
    then show ?thesis
      using takeWhile_digits [OF dd(3) nd] dropWhile_digits [OF dd(3) nd]
      by (simp add: match_int_def)
  qed
  have mn: "match_number md (x # ds @ c # r) = Inr (PInt (int n), c # r)"
    using x mi int_of_dec_digits [of n] assms
    by (simp add: match_number_def match_frac_def match_exp_def dd(1) split: list.splits)
  show ?thesis
    using x mc mn by (simp add: scan_once.simps dd(1))
qed

lemma skip_ws_dec_digits: "skip_ws (dec_digits n @ rest) = dec_digits n @ rest"
proof -
  obtain d ds where dd: "dec_digits n = d # ds" "is_digit d"
    using dec_digits_head by blast
  then show ?thesis by (simp add: skip_ws_def is_json_ws_def is_digit_def)
qed

lemma scan_once_Cons:
  "scan_once md d (c # cs) =
     (if c = 0x22 then
        (case scanstring cs [] of
           None \<Rightarrow> Inl JSONDecodeError
         | Some (str, r) \<Rightarrow> Inr (PStr str, r))
      else if c = 0x7B then
        (if d = 0 then Inl RecursionError
         else if take 1 (skip_ws cs) = [0x7D] then Inr (PDict [], drop 1 (skip_ws cs))
         else object_loop md (d - 1) (skip_ws cs) [])
      else if c = 0x5B then
        (if d = 0 then Inl RecursionError
         else if take 1 (skip_ws cs) = [0x5D] then Inr (PList [], drop 1 (skip_ws cs))
         else array_loop md (d - 1) (skip_ws cs) [])
      else
        (case match_constant (c # cs) of
           Some x \<Rightarrow> Inr x
         | None \<Rightarrow> match_number md (c # cs)))"
  by (simp add: scan_once.simps)

lemma skip_ws_simps:
  "skip_ws [] = []"
  "skip_ws (c # cs) = (if is_json_ws c then skip_ws cs else c # cs)"
  by (simp_all add: skip_ws_def)

lemma loads_evidence_line:
  assumes "0 < max_depth lim" and "length (dec_digits (length b)) \<le> 640"
  shows "json_loads lim (json_dumps (build_evidence_package clock b name nts))
     = Inr (build_evidence_package clock b name nts)"
  unfolding dumps_evidence
  using assms
  by (simp add: json_loads_def skip_ws_simps skip_ws_dec_digits is_json_ws_def scan_once_Cons
      object_loop_eq scanstring_escaped scanstring_safe safe_segments
      scan_once_number str_of_simps encode_basestring_def build_evidence_package_def
      unescape_def)

lemma ok_hex_digit: "d < 16 \<Longrightarrow> ok_char (hex_digit d)"
  by (auto simp: ok_char_def valid_cp_def is_linebreak_def hex_digit_def)

lemma ok_escape_char: "line_safe c \<Longrightarrow> list_all ok_char (escape_char c)"
proof -
  assume ls: "line_safe c"
  show ?thesis
  proof (cases "c < 0x20")
    case True
    then have "c div 16 < 16" "c mod 16 < 16" by simp_all
    then have h: "ok_char (hex_digit (c div 16))" "ok_char (hex_digit (c mod 16))"
      by (simp_all add: ok_hex_digit)
    have a: "ok_char 0x5C" "ok_char 0x22" "ok_char 0x6E" "ok_char 0x72" "ok_char 0x74"
      "ok_char 0x62" "ok_char 0x66" "ok_char 0x75" "ok_char 0x30"
      by (simp_all add: ok_char_def valid_cp_def is_linebreak_def)
    show ?thesis using True h a by (simp add: escape_char_def)
  next
    case False
    with ls show ?thesis
      by (auto simp: escape_char_def ok_char_def line_safe_def valid_cp_def is_linebreak_def)
  qed
qed

lemma ok_escaped: "list_all line_safe s \<Longrightarrow> list_all ok_char (concat (map escape_char s))"
  by (induction s) (simp_all add: ok_escape_char)

lemma ok_safe: "list_all is_safe xs \<Longrightarrow> list_all ok_char xs"
  by (erule list_all_mono) (auto simp: is_safe_def ok_char_def valid_cp_def is_linebreak_def)

lemma ok_evidence_line:
  assumes "list_all line_safe name" "list_all line_safe nts"
  shows "list_all ok_char (json_dumps (build_evidence_package clock b name nts))"
  unfolding dumps_evidence
  using assms
  by (simp add: ok_escaped ok_safe safe_segments encode_basestring_def str_of_simps)
    (simp add: ok_char_def valid_cp_def is_linebreak_def)

lemma splitlines_one_line:
  "list_all ok_char xs \<Longrightarrow> splitlines_from cur (xs @ [0x0A]) = [cur @ xs]"
  by (induction xs arbitrary: cur) (auto simp: ok_char_def is_linebreak_def)

lemma strip_evidence_line:
  "strip (json_dumps (build_evidence_package clock b name nts))
     = json_dumps (build_evidence_package clock b name nts)"
  unfolding dumps_evidence
  by (simp add: strip_def isspace_def str_of_simps)

lemma export_import_roundtrip:
  assumes "list_all line_safe name" "list_all line_safe nts"
    and "0 < max_depth lim" and "length (dec_digits (length b)) \<le> 640"
  shows "export_import lim [build_evidence_package clock b name nts]
     = Inr [build_evidence_package clock b name nts]"
proof -
  let ?r = "build_evidence_package clock b name nts"
  have ok: "list_all ok_char (json_dumps ?r)" using assms(1,2) by (rule ok_evidence_line)
  then have "list_all valid_cp (ledger_to_jsonl [?r])"
    by (auto simp: ledger_to_jsonl_def valid_cp_def ok_char_def elim: list_all_mono)
  then obtain bs where bs: "encode_utf8 (ledger_to_jsonl [?r]) = Inr bs"
    "decode_utf8_ignore bs = ledger_to_jsonl [?r]"
    using encode_decode by blast
  have sl: "splitlines (ledger_to_jsonl [?r]) = [json_dumps ?r]"
    using splitlines_one_line [OF ok, of "[]"] by (simp add: splitlines_def ledger_to_jsonl_def)
  have ne: "json_dumps ?r \<noteq> []" by (simp add: dumps_evidence str_of_simps)
  have "parse_jsonl lim bs = Inr [?r]"
    using ne
    by (simp add: parse_jsonl_def bs(2) sl strip_evidence_line loads_evidence_line [OF assms(3,4)])
  with bs(1) show ?thesis by (simp add: export_import_def export_ledger_def)
qed

subsection \<open>What does not\<close>

text \<open>
  C3. The claim: a record written by \<open>ledger_to_jsonl\<close> and read back by \<open>parse_jsonl\<close>
  comes back as it was. \<^verbatim>\<open>json.dumps\<close> with \<^verbatim>\<open>ensure_ascii=False\<close> copies U+2028
  as it is, and \<^verbatim>\<open>splitlines\<close> ends a line there: for every document and clock, a
  record whose file name is \<^verbatim>\<open>a\<close>, U+2028, \<^verbatim>\<open>b\<close> is written as one line, read as two
  lines of which neither parses, and lost (on an interpreter with no room to open the
  object the first line ends the run instead; the record does not come back there
  either).
\<close>

theorem record_lost_on_reimport:
  "export_import lim
     [build_evidence_package clock b (str_of ''a'' @ [0x2028] @ str_of ''b'') []]
     = (if max_depth lim = 0 then Inl RecursionError else Inr [])"
  using export_then_import_loses_record [of clock b lim]
  by (auto simp: export_import_def export_ledger_def)

text \<open>
  C4. The claim: \<open>ledger_to_jsonl\<close> writes one line per record and \<open>parse_jsonl\<close> reads
  them back in order. A ledger of records is written with exactly one newline per
  record (\<open>ledger_to_jsonl_newlines\<close>) and non-ASCII characters as they are
  (\<open>escape_char_verbatim\<close>), but what is read back need not be the records: for the
  file name \<^verbatim>\<open>a\<close>, U+2028, \<^verbatim>\<open>5\<close>, U+2028, \<^verbatim>\<open>b\<close> the one record is read as three
  lines and the result is the number 5 (or, with no room to open the object, the
  exception of the first line).
\<close>

theorem fragment_read_on_reimport:
  "export_import lim
     [build_evidence_package clock b
        (str_of ''a'' @ [0x2028] @ str_of ''5'' @ [0x2028] @ str_of ''b'') []]
     = (if max_depth lim = 0 then Inl RecursionError else Inr [PInt 5])"
  using export_then_import_reads_fragment [of clock b lim]
  by (auto simp: export_import_def export_ledger_def)

section \<open>Verification of registered documents\<close>

text \<open>
  The positive cases of the specification: a document registered in the session is found
  by its digest, and so is a document whose record comes from an exported ledger, when
  the record's file name and notes survive the export.
\<close>

lemma sha256_matches_evidence:
  "sha256_matches h (build_evidence_package clock b name nts) \<longleftrightarrow> sha256_hex b = h"
  by (simp add: sha256_matches_def build_evidence_package_def py_get_def eq_str_def str_of_simps)

lemma is_dict_evidence: "is_dict (build_evidence_package clock b name nts)"
  by (simp add: build_evidence_package_def is_dict_simps)

lemma ledger_after_crear_evidencia:
  "heap (crear_evidencia clock b name nts init_session) ! ledger (crear_evidencia clock b name nts init_session)
     = [build_evidence_package clock b name nts]
   \<and> ledger (crear_evidencia clock b name nts init_session)
     < length (heap (crear_evidencia clock b name nts init_session))"
  by (simp add: crear_evidencia_def list_append_def init_session_def)

lemma verify_finds_registered_document:
  "fst (verify lim (crear_evidencia clock x name nts init_session) x None)
     = Inr [build_evidence_package clock x name nts]"
proof -
  let ?s = "crear_evidencia clock x name nts init_session"
  have l: "ledger ?s < length (heap ?s)"
    and h: "heap ?s ! ledger ?s = [build_evidence_package clock x name nts]"
    using ledger_after_crear_evidencia [of clock x name nts] by simp_all
  have "list_all is_dict (heap ?s ! ledger ?s @ external_records lim None)"
    by (simp add: h external_records_def is_dict_evidence)
  from verify_matches [OF l _ this, of x] show ?thesis
    by (simp add: h external_records_def sha256_matches_evidence)
qed

lemma verify_finds_exported_document:
  assumes "list_all line_safe name" "list_all line_safe nts"
    and "0 < max_depth lim" and "length (dec_digits (length x)) \<le> 640"
    and "export_ledger [build_evidence_package clock x name nts] = Inr content"
  shows "fst (verify lim init_session x (Some content))
     = Inr [build_evidence_package clock x name nts]"
proof -
  let ?r = "build_evidence_package clock x name nts"
  have p: "parse_jsonl lim content = Inr [?r]"
    using export_import_roundtrip [OF assms(1-4), of clock] assms(5)
    by (simp add: export_import_def)
  then have ext: "external_records lim (Some content) = [?r]"
    using parse_jsonl_returns [OF p] by (simp add: external_records_def)
  have l: "ledger init_session < length (heap init_session)"
    and h: "heap init_session ! ledger init_session = []"
    by (simp_all add: init_session_def)
  have "list_all is_dict
      (heap init_session ! ledger init_session @ external_records lim (Some content))"
    by (simp add: h ext is_dict_evidence)
  from verify_matches [OF l _ this, of x] p show ?thesis
    by (simp add: h ext sha256_matches_evidence)
qed

end
